theory Spec2Isabelle
  imports Complex_Main
begin

section \<open>The shared record (detector.cpp, lines 16--28)\<close>

text \<open>
  \<^verbatim>\<open>struct DetectionData { int frame_number; int num_detections;
       struct BBox { float x, y, width, height, confidence; } boxes[50];
       bool processing_complete; };\<close>

  A \<^verbatim>\<open>float\<close> is modelled by the real number it denotes; where the program computes
  in \<^verbatim>\<open>float\<close> (the products of lines 114--117) the rounding is written out, and the
  conversions of \<^verbatim>\<open>int\<close> coordinates to \<^verbatim>\<open>float\<close> in lines 139--142 are taken as exact,
  which they are below \<open>2 ^ 24\<close>. The selectors carry a
  prefix (\<open>bbox_x\<close> for \<^verbatim>\<open>BBox::x\<close>, \<open>rect_x\<close> for \<^verbatim>\<open>cv::Rect::x\<close>) because both
  structs of the source use the member names \<^verbatim>\<open>x, y, width, height\<close>. The array
  \<^verbatim>\<open>boxes[50]\<close> is a list; the region the program works on always has 50 entries
  (\<open>zero_region\<close> below), and every index the program stores to is below 50.
\<close>

record BBox =
  bbox_x :: real
  bbox_y :: real
  bbox_width :: real
  bbox_height :: real
  bbox_confidence :: real

record DetectionData =
  frame_number :: int
  num_detections :: int
  boxes :: "BBox list"
  processing_complete :: bool

record Rect =
  rect_x :: int
  rect_y :: int
  rect_width :: int
  rect_height :: int

definition CAPACITY :: nat where
  "CAPACITY = 50"

definition zero_bbox :: BBox where
  "zero_bbox = \<lparr>bbox_x = 0, bbox_y = 0, bbox_width = 0, bbox_height = 0, bbox_confidence = 0\<rparr>"

text \<open>The region after \<^verbatim>\<open>memset(sharedData, 0, sizeof(DetectionData))\<close> (line 72).\<close>

definition zero_region :: DetectionData where
  "zero_region = \<lparr>frame_number = 0, num_detections = 0,
     boxes = replicate CAPACITY zero_bbox, processing_complete = False\<rparr>"

section \<open>Stores to the shared region\<close>

text \<open>
  Every assignment through \<^verbatim>\<open>sharedData\<close> is one store. The program is the only writer;
  the region after a sequence of stores is the fold of \<open>apply_write\<close> over it, and the
  regions a reader can find between two stores are the folds over the prefixes.
\<close>

datatype store =
    Memset_zero
  | Set_frame_number int
  | Set_num_detections int
  | Set_x nat real
  | Set_y nat real
  | Set_width nat real
  | Set_height nat real
  | Set_confidence nat real
  | Set_processing_complete bool

fun apply_write :: "store \<Rightarrow> DetectionData \<Rightarrow> DetectionData" where
  "apply_write Memset_zero d = zero_region"
| "apply_write (Set_frame_number n) d = d\<lparr>frame_number := n\<rparr>"
| "apply_write (Set_num_detections n) d = d\<lparr>num_detections := n\<rparr>"
| "apply_write (Set_x i v) d = d\<lparr>boxes := (boxes d)[i := (boxes d ! i)\<lparr>bbox_x := v\<rparr>]\<rparr>"
| "apply_write (Set_y i v) d = d\<lparr>boxes := (boxes d)[i := (boxes d ! i)\<lparr>bbox_y := v\<rparr>]\<rparr>"
| "apply_write (Set_width i v) d =
     d\<lparr>boxes := (boxes d)[i := (boxes d ! i)\<lparr>bbox_width := v\<rparr>]\<rparr>"
| "apply_write (Set_height i v) d =
     d\<lparr>boxes := (boxes d)[i := (boxes d ! i)\<lparr>bbox_height := v\<rparr>]\<rparr>"
| "apply_write (Set_confidence i v) d =
     d\<lparr>boxes := (boxes d)[i := (boxes d ! i)\<lparr>bbox_confidence := v\<rparr>]\<rparr>"
| "apply_write (Set_processing_complete b) d = d\<lparr>processing_complete := b\<rparr>"

definition run_writes :: "DetectionData \<Rightarrow> store list \<Rightarrow> DetectionData" where
  "run_writes d ws = foldl (\<lambda>s w. apply_write w s) d ws"

text \<open>The box entry a store goes to, if it is a store to a box entry.\<close>

fun box_index :: "store \<Rightarrow> nat option" where
  "box_index (Set_x i v) = Some i"
| "box_index (Set_y i v) = Some i"
| "box_index (Set_width i v) = Some i"
| "box_index (Set_height i v) = Some i"
| "box_index (Set_confidence i v) = Some i"
| "box_index w = None"

section \<open>Publishing one frame (lines 132--144)\<close>

text \<open>
  \<^verbatim>\<open>sharedData->boxes[i].x = box.x; ... .confidence = confidences[idx];\<close>
  with \<^verbatim>\<open>idx = indices[i]\<close> and \<^verbatim>\<open>box = boxes[idx]\<close> (lines 137--143). The
  \<^verbatim>\<open>int\<close> members of the rectangle are converted to \<^verbatim>\<open>float\<close>.
\<close>

definition entry_writes :: "Rect list \<Rightarrow> real list \<Rightarrow> nat list \<Rightarrow> nat \<Rightarrow> store list" where
  "entry_writes bs cs indices i =
     (let idx = indices ! i; box = bs ! idx in
      [Set_x i (of_int (rect_x box)),
       Set_y i (of_int (rect_y box)),
       Set_width i (of_int (rect_width box)),
       Set_height i (of_int (rect_height box)),
       Set_confidence i (cs ! idx)])"

text \<open>
  Lines 133--144: \<^verbatim>\<open>frame_number = frameCount; num_detections = min((int)indices.size(), 50);\<close>
  then the loop over \<^verbatim>\<open>i < num_detections\<close>.
\<close>

definition publish_count :: "nat list \<Rightarrow> int" where
  "publish_count indices = min (int (length indices)) 50"

definition publish :: "int \<Rightarrow> Rect list \<Rightarrow> real list \<Rightarrow> nat list \<Rightarrow> store list" where
  "publish frameCount bs cs indices =
     [Set_frame_number frameCount, Set_num_detections (publish_count indices)]
     @ concat (map (entry_writes bs cs indices) [0..<nat (publish_count indices)])"

text \<open>The entry that the loop body leaves at position \<open>i\<close>.\<close>

definition published_entry :: "Rect list \<Rightarrow> real list \<Rightarrow> nat \<Rightarrow> BBox" where
  "published_entry bs cs idx =
     \<lparr>bbox_x = of_int (rect_x (bs ! idx)), bbox_y = of_int (rect_y (bs ! idx)),
      bbox_width = of_int (rect_width (bs ! idx)), bbox_height = of_int (rect_height (bs ! idx)),
      bbox_confidence = cs ! idx\<rparr>"

section \<open>C arithmetic used by the box decoding\<close>

text \<open>
  \<^verbatim>\<open>(int)f\<close> on a \<^verbatim>\<open>float\<close> discards the fractional part (truncation toward zero), and
  \<^verbatim>\<open>/\<close> on \<^verbatim>\<open>int\<close> truncates toward zero as well. The range of \<^verbatim>\<open>int\<close> is not modelled
  for the rectangle coordinates: a conversion or a difference that leaves it is undefined
  in C++.
\<close>

definition to_int :: "real \<Rightarrow> int" where
  "to_int r = (if 0 \<le> r then \<lfloor>r\<rfloor> else \<lceil>r\<rceil>)"

definition c_div :: "int \<Rightarrow> int \<Rightarrow> int" where
  "c_div a b = (if (a < 0) = (b < 0) then \<bar>a\<bar> div \<bar>b\<bar> else - (\<bar>a\<bar> div \<bar>b\<bar>))"

text \<open>
  \<^verbatim>\<open>data[k] * frame.cols\<close> has type \<^verbatim>\<open>float\<close>: the \<^verbatim>\<open>int\<close> is converted to \<^verbatim>\<open>float\<close> and
  the product is rounded to \<^verbatim>\<open>float\<close> before the cast of lines 114--117 sees it. \<open>f32\<close>
  is the rounding of a real number to IEEE 754 binary32, to nearest with ties to even:
  the exponent \<open>e\<close> is the largest one with \<open>2 ^ e \<le> |x|\<close>, not below -126 (the
  subnormal range), and the result is the multiple of \<open>2 ^ (e - 23)\<close> nearest to \<open>x\<close>.
  Overflow to infinity (from \<open>2 ^ 128\<close> on) and NaN are not modelled; the products are
  taken in \<^verbatim>\<open>float\<close> precision (\<^verbatim>\<open>FLT_EVAL_METHOD\<close> 0, as on x86-64 and AArch64).
\<close>

fun find_exponent :: "nat \<Rightarrow> real \<Rightarrow> int" where
  "find_exponent 0 a = - 126"
| "find_exponent (Suc n) a =
     (if 2 powi (int (Suc n) - 126) \<le> a then int (Suc n) - 126 else find_exponent n a)"

definition float_exponent :: "real \<Rightarrow> int" where
  "float_exponent x = find_exponent 253 \<bar>x\<bar>"

definition round_half_even :: "real \<Rightarrow> int" where
  "round_half_even q =
     (if q - of_int \<lfloor>q\<rfloor> < 1 / 2 then \<lfloor>q\<rfloor>
      else if 1 / 2 < q - of_int \<lfloor>q\<rfloor> then \<lfloor>q\<rfloor> + 1
      else if even \<lfloor>q\<rfloor> then \<lfloor>q\<rfloor> else \<lfloor>q\<rfloor> + 1)"

definition f32 :: "real \<Rightarrow> real" where
  "f32 x = of_int (round_half_even (x / 2 powi (float_exponent x - 23)))
             * 2 powi (float_exponent x - 23)"

text \<open>The \<^verbatim>\<open>float\<close> product of a \<^verbatim>\<open>float\<close> and an \<^verbatim>\<open>int\<close>.\<close>

definition float_times_int :: "real \<Rightarrow> int \<Rightarrow> real" where
  "float_times_int a n = f32 (a * f32 (of_int n))"

definition INT_MAX :: int where
  "INT_MAX = 2147483647"

section \<open>Detection filter (lines 100--126)\<close>

text \<open>
  One row of a network output matrix, as the loop reads it through \<^verbatim>\<open>float* data\<close>:
  \<^verbatim>\<open>data[0]\<close>..\<^verbatim>\<open>data[3]\<close> are the normalized centre and size, \<^verbatim>\<open>data[4]\<close> is not read,
  and \<^verbatim>\<open>outs[i].row(j).colRange(5, outs[i].cols)\<close> are the class scores.
\<close>

record yolo_row =
  data0 :: real
  data1 :: real
  data2 :: real
  data3 :: real
  data4 :: real
  scores :: "real list"

type_synonym Mat = "yolo_row list"

text \<open>
  \<^verbatim>\<open>minMaxLoc(scores, 0, &confidence, 0, &classIdPoint)\<close> is a function of the OpenCV
  library: it reports the largest score and the column where it stands, the first such
  column when several hold it, and of an empty score row the value 0 at column -1. The
  theorems below use of it only what line 113 tests of its result; its definition is
  evaluated in the examples alone.
\<close>

fun max_scan :: "real list \<Rightarrow> nat \<Rightarrow> real \<Rightarrow> nat \<Rightarrow> real \<times> nat" where
  "max_scan [] k best loc = (best, loc)"
| "max_scan (s # ss) k best loc =
     (if best < s then max_scan ss (Suc k) s k else max_scan ss (Suc k) best loc)"

definition minMaxLoc :: "real list \<Rightarrow> real \<times> int" where
  "minMaxLoc ss =
     (case ss of
        [] \<Rightarrow> (0, - 1)
      | s # rest \<Rightarrow> (case max_scan rest 1 s 0 of (v, l) \<Rightarrow> (v, int l)))"

definition confThreshold :: real where
  "confThreshold = 0.5"

text \<open>
  \<^verbatim>\<open>float nmsThreshold = 0.4\<close> holds the \<^verbatim>\<open>float\<close> nearest to 0.4; the model takes 0.4.
  The theorems on the suppressor are stated for every threshold.
\<close>

definition nmsThreshold :: real where
  "nmsThreshold = 0.4"

text \<open>
  What the program knows of one decoded frame: its size (\<^verbatim>\<open>frame.cols\<close>, \<^verbatim>\<open>frame.rows\<close>)
  and what the inference of lines 92--97 (\<^verbatim>\<open>blobFromImage\<close>, \<^verbatim>\<open>net.setInput\<close>,
  \<^verbatim>\<open>net.forward(outs, outNames)\<close>) does on it, which is to fill \<^verbatim>\<open>outs\<close> or to throw a
  \<^verbatim>\<open>cv::Exception\<close>. The stores of lines 133--143 are plain assignments to mapped
  memory and have no failure of their own.
\<close>

datatype cv_Exception = cv_Exception

record Frame =
  frame_cols :: int
  frame_rows :: int
  net_forward :: "cv_Exception + Mat list"

text \<open>
  The body of the inner loop (lines 107--124). The vectors \<^verbatim>\<open>classIds\<close>,
  \<^verbatim>\<open>confidences\<close> and \<^verbatim>\<open>boxes\<close> are pushed to together, so the candidates are one list
  of triples, and the vectors are its projections (\<^verbatim>\<open>classIds\<close> is not read again).
\<close>

definition process_row :: "Frame \<Rightarrow> yolo_row \<Rightarrow> (int \<times> real \<times> Rect) list" where
  "process_row frame data =
     (case minMaxLoc (scores data) of
        (confidence, classIdPoint_x) \<Rightarrow>
          if classIdPoint_x = 0 \<and> confThreshold < confidence then
            (let centerX = to_int (float_times_int (data0 data) (frame_cols frame));
                 centerY = to_int (float_times_int (data1 data) (frame_rows frame));
                 width = to_int (float_times_int (data2 data) (frame_cols frame));
                 height = to_int (float_times_int (data3 data) (frame_rows frame));
                 left = centerX - c_div width 2;
                 top = centerY - c_div height 2
             in [(classIdPoint_x, confidence,
                  \<lparr>rect_x = left, rect_y = top, rect_width = width, rect_height = height\<rparr>)])
          else [])"

definition collect_candidates :: "Frame \<Rightarrow> Mat list \<Rightarrow> (int \<times> real \<times> Rect) list" where
  "collect_candidates frame outs = concat (map (\<lambda>m. concat (map (process_row frame) m)) outs)"

definition confidences_of :: "(int \<times> real \<times> Rect) list \<Rightarrow> real list" where
  "confidences_of cands = map (\<lambda>c. fst (snd c)) cands"

definition boxes_of :: "(int \<times> real \<times> Rect) list \<Rightarrow> Rect list" where
  "boxes_of cands = map (\<lambda>c. snd (snd c)) cands"

section \<open>Suppressor (line 130)\<close>

text \<open>
  The program calls \<^verbatim>\<open>NMSBoxes\<close> of the OpenCV library, whose code is not part of the
  repository. The definitions of this section follow the spec's contract of the
  Suppressor instead: sort descending by confidence, ties in the order of the candidates;
  repeatedly take the highest-scoring remaining box, emit it, and discard every remaining
  box whose intersection-over-union with it exceeds the threshold. The spec leaves open
  what the ratio of two rectangles without area is; they count as the same rectangle here
  (ratio 1). The third argument of the call is the library's score threshold: candidates
  not above it are not considered; in the program every candidate is above it already.
\<close>

text \<open>Modelled from the spec: the area of a rectangle, for the intersection-over-union.\<close>

definition rect_area :: "Rect \<Rightarrow> int" where
  "rect_area r = rect_width r * rect_height r"

text \<open>
  Modelled from the spec: the area of the intersection of two rectangles (OpenCV's
  \<^verbatim>\<open>a & b\<close>, not in the repository); it is 0 when they do not meet.
\<close>

definition intersection_area :: "Rect \<Rightarrow> Rect \<Rightarrow> int" where
  "intersection_area a b =
     (let w = min (rect_x a + rect_width a) (rect_x b + rect_width b) - max (rect_x a) (rect_x b);
          h = min (rect_y a + rect_height a) (rect_y b + rect_height b) - max (rect_y a) (rect_y b)
      in if w \<le> 0 \<or> h \<le> 0 then 0 else w * h)"

text \<open>
  Modelled from the spec: the intersection-over-union of the glossary, area of the
  intersection divided by area of the union; the library's own overlap function is not
  in the repository.
\<close>

definition iou :: "Rect \<Rightarrow> Rect \<Rightarrow> real" where
  "iou a b =
     (let i = intersection_area a b; u = rect_area a + rect_area b - i
      in if u \<le> 0 then 1 else of_int i / of_int u)"

text \<open>
  Modelled from the spec: the greedy pass of the Suppressor over the sorted candidates
  (inside the library's \<^verbatim>\<open>NMSBoxes\<close>, not in the repository): take the first remaining
  box, emit it, discard every remaining box whose intersection-over-union with it exceeds
  the threshold.
\<close>

fun suppress :: "Rect list \<Rightarrow> real \<Rightarrow> nat list \<Rightarrow> nat list" where
  "suppress bs thr [] = []"
| "suppress bs thr (i # rest) =
     i # suppress bs thr (filter (\<lambda>j. \<not> thr < iou (bs ! i) (bs ! j)) rest)"

text \<open>
  Modelled from the spec: \<^verbatim>\<open>NMSBoxes(boxes, confidences, confThreshold, nmsThreshold,
  indices)\<close> of the OpenCV library, not in the repository. The result is the vector
  \<^verbatim>\<open>indices\<close>: positions in \<^verbatim>\<open>boxes\<close>, sorted by descending confidence with a stable
  sort, then suppressed.
\<close>

definition NMSBoxes :: "Rect list \<Rightarrow> real list \<Rightarrow> real \<Rightarrow> real \<Rightarrow> nat list" where
  "NMSBoxes bboxes scs score_threshold nms_threshold =
     suppress bboxes nms_threshold
       (sort_key (\<lambda>i. - (scs ! i))
          (filter (\<lambda>i. score_threshold < scs ! i) [0..<length scs]))"

section \<open>The streaming loop (lines 85--150)\<close>

text \<open>The stores of one iteration of the loop, from the network output on (lines 99--144).\<close>

definition process_frame :: "int \<Rightarrow> Frame \<Rightarrow> Mat list \<Rightarrow> store list" where
  "process_frame frameCount frame outs =
     (let cands = collect_candidates frame outs;
          indices = NMSBoxes (boxes_of cands) (confidences_of cands) confThreshold nmsThreshold
      in publish frameCount (boxes_of cands) (confidences_of cands) indices)"

text \<open>
  The video is the list of frames that \<^verbatim>\<open>cap >> frame\<close> delivers before the empty frame.
  The loop has no \<^verbatim>\<open>try\<close>: an exception of the inference leaves the loop and \<^verbatim>\<open>main\<close>.
  \<^verbatim>\<open>frameCount++\<close> at \<^verbatim>\<open>INT_MAX\<close> is a signed overflow, which is undefined in C++; the
  model stops there with an outcome of its own. The result is the stores made, how the
  loop ended, and \<^verbatim>\<open>frameCount\<close>.
\<close>

datatype loop_exit = Source_exhausted | Uncaught_exception | Signed_overflow

fun stream_loop :: "Frame list \<Rightarrow> int \<Rightarrow> store list \<times> loop_exit \<times> int" where
  "stream_loop [] frameCount = ([], Source_exhausted, frameCount)"
| "stream_loop (frame # rest) frameCount =
     (if frameCount = INT_MAX then ([], Signed_overflow, frameCount)
      else
        (case net_forward frame of
           Inl e \<Rightarrow> ([], Uncaught_exception, frameCount + 1)
         | Inr outs \<Rightarrow>
             (case stream_loop rest (frameCount + 1) of
                (ws, r, n) \<Rightarrow> (process_frame (frameCount + 1) frame outs @ ws, r, n))))"

text \<open>The values stored to \<^verbatim>\<open>frame_number\<close>, in the order of the stores.\<close>

fun published_frame_numbers :: "store list \<Rightarrow> int list" where
  "published_frame_numbers [] = []"
| "published_frame_numbers (Set_frame_number n # ws) = n # published_frame_numbers ws"
| "published_frame_numbers (w # ws) = published_frame_numbers ws"

text \<open>
  The regions that exist while a sequence of stores is made: before the first store,
  between two stores, after the last.
\<close>

definition observations :: "DetectionData \<Rightarrow> store list \<Rightarrow> DetectionData list" where
  "observations d ws = map (\<lambda>k. run_writes d (take k ws)) [0..<Suc (length ws)]"

section \<open>The program (lines 30--167) and the shared memory segment\<close>

text \<open>
  What \<^verbatim>\<open>main\<close> depends on outside itself: the argument count, whether the model files
  load (\<^verbatim>\<open>readNetFromDarknet\<close> throws otherwise), whether the video opens, whether
  \<^verbatim>\<open>shmget\<close> and \<^verbatim>\<open>shmat\<close> succeed, and the frames of the video. The result of \<open>main\<close>
  is the sequence of its operations on the segment and how it ended: a return value, a
  termination by an uncaught exception, or the undefined overflow of \<^verbatim>\<open>frameCount\<close>.
  Console output and the \<^verbatim>\<open>usleep\<close> of line 149 are left out.
\<close>

record env =
  argc :: int
  net_loads :: bool
  cap_isOpened :: bool
  shmget_ok :: bool
  shmat_ok :: bool
  video :: "Frame list"

text \<open>
  The operations on the System V segment. \<open>Shmctl_rmid\<close> is the operation that destroys
  a segment (\<^verbatim>\<open>shmctl(shmid, IPC_RMID, 0)\<close>); it is part of the interface, and the
  program has no call of it.
\<close>

datatype event = Shmget | Shmat | Store store | Shmdt | Shmctl_rmid

datatype exit_status = Return int | Terminated | Undefined

definition main :: "env \<Rightarrow> event list \<times> exit_status" where
  "main e =
     (if argc e \<noteq> 2 then ([], Return (- 1))
      else if \<not> net_loads e then ([], Terminated)
      else if \<not> cap_isOpened e then ([], Return (- 1))
      else if \<not> shmget_ok e then ([], Return (- 1))
      else if \<not> shmat_ok e then ([Shmget], Return (- 1))
      else
        (case stream_loop (video e) 0 of
           (ws, r, n) \<Rightarrow>
             (let started = [Shmget, Shmat, Store Memset_zero, Store (Set_processing_complete False)]
                              @ map Store ws
              in case r of
                   Source_exhausted \<Rightarrow>
                     (started @ [Store (Set_processing_complete True), Shmdt], Return 0)
                 | Uncaught_exception \<Rightarrow> (started, Terminated)
                 | Signed_overflow \<Rightarrow> (started, Undefined))))"

text \<open>
  The segment as the operating system keeps it: its contents while it exists, and
  whether this process has it mapped. \<^verbatim>\<open>shmget\<close> with \<^verbatim>\<open>IPC_CREAT\<close> creates a zero-filled
  segment when there is none and finds the existing one otherwise. \<open>Shmctl_rmid\<close> takes
  the segment away at once (the system defers that to the last detach); no theorem
  below depends on when.
\<close>

record shm =
  segment :: "DetectionData option"
  mapped :: bool

fun os_step :: "shm \<Rightarrow> event \<Rightarrow> shm" where
  "os_step s Shmget = (case segment s of None \<Rightarrow> s\<lparr>segment := Some zero_region\<rparr> | Some d \<Rightarrow> s)"
| "os_step s Shmat = s\<lparr>mapped := True\<rparr>"
| "os_step s (Store w) = (if mapped s then s\<lparr>segment := map_option (apply_write w) (segment s)\<rparr> else s)"
| "os_step s Shmdt = s\<lparr>mapped := False\<rparr>"
| "os_step s Shmctl_rmid = s\<lparr>segment := None\<rparr>"

definition os_run :: "shm \<Rightarrow> event list \<Rightarrow> shm" where
  "os_run s evs = foldl os_step s evs"

section \<open>Inputs used in the examples\<close>

text \<open>
  Boxes of 5 by 5 pixels, 10 pixels apart; the region after a first frame with one
  detection, and after a first frame with none; a 640 by 480 frame with one person, and
  one on which the inference throws; an environment in which the program starts up; a
  segment that does not exist yet, and one left by an earlier run; three candidate boxes
  of which the first two overlap; a row whose box is 5 pixels wide and 15 high.
\<close>

definition example_box :: "nat \<Rightarrow> Rect" where
  "example_box i = \<lparr>rect_x = 10 * int i, rect_y = 0, rect_width = 5, rect_height = 5\<rparr>"

definition disjoint_boxes :: "nat \<Rightarrow> Rect list" where
  "disjoint_boxes n = map example_box [0..<n]"

definition frame1_region :: DetectionData where
  "frame1_region = run_writes zero_region (publish 1 [example_box 1] [7 / 8] [0])"

definition empty_frame1_region :: DetectionData where
  "empty_frame1_region = run_writes zero_region (publish 1 [] [] [])"

definition person_row :: yolo_row where
  "person_row = \<lparr>data0 = 1 / 2, data1 = 1 / 2, data2 = 1 / 4, data3 = 1 / 2, data4 = 1,
     scores = [7 / 8, 1 / 8]\<rparr>"

definition person_frame :: Frame where
  "person_frame = \<lparr>frame_cols = 640, frame_rows = 480, net_forward = Inr [[person_row]]\<rparr>"

definition failing_frame :: Frame where
  "failing_frame = \<lparr>frame_cols = 640, frame_rows = 480, net_forward = Inl cv_Exception\<rparr>"

definition example_env :: "Frame list \<Rightarrow> env" where
  "example_env fs = \<lparr>argc = 2, net_loads = True, cap_isOpened = True, shmget_ok = True,
     shmat_ok = True, video = fs\<rparr>"

definition absent_segment :: shm where
  "absent_segment = \<lparr>segment = None, mapped = False\<rparr>"

definition stale_segment :: shm where
  "stale_segment = \<lparr>segment = Some frame1_region, mapped = False\<rparr>"

definition overlapping_boxes :: "Rect list" where
  "overlapping_boxes =
     [\<lparr>rect_x = 0, rect_y = 0, rect_width = 10, rect_height = 10\<rparr>,
      \<lparr>rect_x = 1, rect_y = 1, rect_width = 10, rect_height = 10\<rparr>,
      \<lparr>rect_x = 100, rect_y = 100, rect_width = 10, rect_height = 10\<rparr>]"

definition narrow_row :: yolo_row where
  "narrow_row = \<lparr>data0 = 1 / 2, data1 = 1 / 2, data2 = 1 / 128, data3 = 1 / 32, data4 = 1,
     scores = [7 / 8, 1 / 8]\<rparr>"

definition narrow_frame :: Frame where
  "narrow_frame = \<lparr>frame_cols = 640, frame_rows = 480, net_forward = Inr [[narrow_row]]\<rparr>"

text \<open>
  A row whose centre is the \<^verbatim>\<open>float\<close> nearest to 0.7 in both directions, with a box of a
  quarter of the width and half the height, on a 640 by 480 frame.
\<close>

definition rounded_row :: yolo_row where
  "rounded_row = \<lparr>data0 = 11744051 / 16777216, data1 = 11744051 / 16777216, data2 = 1 / 4,
     data3 = 1 / 2, data4 = 1, scores = [7 / 8, 1 / 8]\<rparr>"

definition rounded_frame :: Frame where
  "rounded_frame = \<lparr>frame_cols = 640, frame_rows = 480, net_forward = Inr [[rounded_row]]\<rparr>"

text \<open>
  A frame of 1024 by 1024 pixels whose network output has \<open>n\<close> rows, each a person
  of confidence 0.875 in a box of 5 by 5 pixels, the boxes 10 pixels apart. All the
  products of the decoding are exact in \<^verbatim>\<open>float\<close>.
\<close>

definition crowd_row :: "nat \<Rightarrow> yolo_row" where
  "crowd_row i = \<lparr>data0 = of_int (10 * int i + 2) / 1024, data1 = 2 / 1024, data2 = 5 / 1024,
     data3 = 5 / 1024, data4 = 1, scores = [7 / 8, 1 / 8]\<rparr>"

definition crowd_outs :: "nat \<Rightarrow> Mat list" where
  "crowd_outs n = [map crowd_row [0..<n]]"

definition crowd_frame :: "nat \<Rightarrow> Frame" where
  "crowd_frame n = \<lparr>frame_cols = 1024, frame_rows = 1024, net_forward = Inr (crowd_outs n)\<rparr>"

section \<open>Basic facts about stores\<close>

lemma run_writes_Nil: "run_writes d [] = d"
  by (simp add: run_writes_def)

lemma run_writes_Cons: "run_writes d (w # ws) = run_writes (apply_write w d) ws"
  by (simp add: run_writes_def)

lemma run_writes_append: "run_writes d (ws @ vs) = run_writes (run_writes d ws) vs"
  by (simp add: run_writes_def)

lemma run_writes_snoc: "run_writes d (ws @ [w]) = apply_write w (run_writes d ws)"
  by (simp add: run_writes_def)

lemma apply_write_header:
  "box_index w \<noteq> None \<Longrightarrow>
     frame_number (apply_write w d) = frame_number d \<and>
     num_detections (apply_write w d) = num_detections d \<and>
     processing_complete (apply_write w d) = processing_complete d \<and>
     length (boxes (apply_write w d)) = length (boxes d)"
  by (cases w) simp_all

lemma run_writes_header:
  "\<forall>w \<in> set ws. box_index w \<noteq> None \<Longrightarrow>
     frame_number (run_writes d ws) = frame_number d \<and>
     num_detections (run_writes d ws) = num_detections d \<and>
     processing_complete (run_writes d ws) = processing_complete d \<and>
     length (boxes (run_writes d ws)) = length (boxes d)"
proof (induction ws arbitrary: d)
  case Nil
  show ?case by (simp add: run_writes_Nil)
next
  case (Cons w ws)
  from Cons.prems have w: "box_index w \<noteq> None" and rest: "\<forall>v \<in> set ws. box_index v \<noteq> None"
    by simp_all
  show ?case
    using Cons.IH [OF rest, of "apply_write w d"] apply_write_header [OF w, of d]
    by (simp add: run_writes_Cons)
qed

lemma apply_write_other_entry:
  "w \<noteq> Memset_zero \<Longrightarrow> box_index w \<noteq> Some i \<Longrightarrow> boxes (apply_write w d) ! i = boxes d ! i"
  by (cases w) auto

lemma run_writes_other_entry:
  "\<forall>w \<in> set ws. w \<noteq> Memset_zero \<and> box_index w \<noteq> Some i \<Longrightarrow>
     boxes (run_writes d ws) ! i = boxes d ! i"
proof (induction ws arbitrary: d)
  case Nil
  show ?case by (simp add: run_writes_Nil)
next
  case (Cons w ws)
  then show ?case
    by (simp add: run_writes_Cons apply_write_other_entry)
qed

lemma box_index_entry_writes:
  "w \<in> set (entry_writes bs cs indices i) \<Longrightarrow> box_index w = Some i"
  by (auto simp: entry_writes_def Let_def)

lemma length_entry_writes: "length (entry_writes bs cs indices i) = 5"
  by (simp add: entry_writes_def Let_def)

lemma run_writes_entry:
  "i < length (boxes d) \<Longrightarrow>
     boxes (run_writes d (entry_writes bs cs indices i)) ! i = published_entry bs cs (indices ! i)"
  by (simp add: entry_writes_def Let_def run_writes_def published_entry_def)

lemma observations_nth:
  "k \<le> length ws \<Longrightarrow> observations d ws ! k = run_writes d (take k ws)"
  unfolding observations_def by (subst nth_map) (simp_all del: upt_Suc)

section \<open>The stores of a publish\<close>

lemma length_body: "length (concat (map (entry_writes bs cs indices) [0..<n])) = 5 * n"
  by (induction n) (simp_all add: length_entry_writes)

lemma box_index_body_nth:
  "p < 5 * n \<Longrightarrow>
     box_index (concat (map (entry_writes bs cs indices) [0..<n]) ! p) = Some (p div 5)"
proof (induction n)
  case 0
  then show ?case by simp
next
  case (Suc n)
  show ?case
  proof (cases "p < 5 * n")
    case True
    with Suc.IH show ?thesis
      by (simp add: nth_append length_body)
  next
    case False
    with Suc.prems have q: "p - 5 * n < 5" and d: "p div 5 = n" by auto
    have "entry_writes bs cs indices n ! (p - 5 * n) \<in> set (entry_writes bs cs indices n)"
      using q by (simp add: length_entry_writes)
    then have "box_index (entry_writes bs cs indices n ! (p - 5 * n)) = Some n"
      by (rule box_index_entry_writes)
    with False d show ?thesis
      by (simp add: nth_append length_body)
  qed
qed

lemma length_publish: "length (publish fc bs cs indices) = 2 + 5 * nat (publish_count indices)"
  by (simp add: publish_def length_body)

lemma publish_nth_box_index:
  "2 \<le> p \<Longrightarrow> p < length (publish fc bs cs indices) \<Longrightarrow>
     box_index (publish fc bs cs indices ! p) = Some ((p - 2) div 5)"
proof -
  assume p2: "2 \<le> p" and pl: "p < length (publish fc bs cs indices)"
  have split: "publish fc bs cs indices =
      [Set_frame_number fc, Set_num_detections (publish_count indices)]
      @ concat (map (entry_writes bs cs indices) [0..<nat (publish_count indices)])"
    by (simp add: publish_def)
  from p2 have nth: "publish fc bs cs indices ! p =
      concat (map (entry_writes bs cs indices) [0..<nat (publish_count indices)]) ! (p - 2)"
    unfolding split by (subst nth_append) (simp add: numeral_2_eq_2)
  from p2 pl have "p - 2 < 5 * nat (publish_count indices)"
    by (simp add: length_publish)
  from box_index_body_nth [OF this] nth show ?thesis by simp
qed

lemma publish_nth_not_memset:
  "p < length (publish fc bs cs indices) \<Longrightarrow> publish fc bs cs indices ! p \<noteq> Memset_zero"
proof (cases "2 \<le> p")
  case True
  assume "p < length (publish fc bs cs indices)"
  from publish_nth_box_index [OF True this] show ?thesis by auto
next
  case False
  then have "p = 0 \<or> p = 1" by auto
  then show ?thesis by (auto simp: publish_def)
qed

lemma publish_prefix_untouched:
  assumes "k \<le> 2 + 5 * i"
  shows "boxes (run_writes d (take k (publish fc bs cs indices))) ! i = boxes d ! i"
proof (rule run_writes_other_entry, rule ballI)
  fix w
  assume "w \<in> set (take k (publish fc bs cs indices))"
  then obtain p where p: "p < k" "p < length (publish fc bs cs indices)"
    and w: "w = publish fc bs cs indices ! p"
    by (auto simp: in_set_conv_nth)
  have "box_index w \<noteq> Some i"
  proof (cases "2 \<le> p")
    case True
    from p assms True have "(p - 2) div 5 < i" by auto
    with publish_nth_box_index [OF True p(2)] w show ?thesis by simp
  next
    case False
    then have "p = 0 \<or> p = 1" by auto
    with w show ?thesis by (auto simp: publish_def)
  qed
  with publish_nth_not_memset [OF p(2)] w
  show "w \<noteq> Memset_zero \<and> box_index w \<noteq> Some i" by simp
qed

lemma publish_suffix_untouched:
  assumes "2 + 5 * Suc i \<le> k"
  shows "boxes (run_writes s (drop k (publish fc bs cs indices))) ! i = boxes s ! i"
proof (rule run_writes_other_entry, rule ballI)
  fix w
  assume "w \<in> set (drop k (publish fc bs cs indices))"
  then obtain q where "q < length (drop k (publish fc bs cs indices))"
    and "w = drop k (publish fc bs cs indices) ! q"
    by (auto simp: in_set_conv_nth)
  then have q: "k + q < length (publish fc bs cs indices)"
    and w: "w = publish fc bs cs indices ! (k + q)"
    by simp_all
  from assms have two: "2 \<le> k + q" by simp
  from assms have "5 * Suc i \<le> k + q - 2" by simp
  then have "Suc i \<le> (k + q - 2) div 5" by simp
  with publish_nth_box_index [OF two q] w have "box_index w \<noteq> Some i" by simp
  with publish_nth_not_memset [OF q] w
  show "w \<noteq> Memset_zero \<and> box_index w \<noteq> Some i" by simp
qed

lemma publish_prefix_done:
  assumes "2 + 5 * Suc i \<le> k"
  shows "boxes (run_writes d (take k (publish fc bs cs indices))) ! i
           = boxes (run_writes d (publish fc bs cs indices)) ! i"
proof -
  have "run_writes d (publish fc bs cs indices)
          = run_writes (run_writes d (take k (publish fc bs cs indices)))
              (drop k (publish fc bs cs indices))"
    by (simp add: run_writes_append [symmetric])
  with publish_suffix_untouched [OF assms] show ?thesis by simp
qed

lemma publish_prefix_header:
  assumes "2 \<le> k"
  shows "frame_number (run_writes d (take k (publish fc bs cs indices))) = fc"
    and "num_detections (run_writes d (take k (publish fc bs cs indices))) = publish_count indices"
    and "processing_complete (run_writes d (take k (publish fc bs cs indices)))
           = processing_complete d"
    and "length (boxes (run_writes d (take k (publish fc bs cs indices)))) = length (boxes d)"
proof -
  let ?hdr = "[Set_frame_number fc, Set_num_detections (publish_count indices)]"
  let ?body = "concat (map (entry_writes bs cs indices) [0..<nat (publish_count indices)])"
  from assms obtain k' where k': "k = Suc (Suc k')"
    by (metis Suc_le_D Suc_le_mono numeral_2_eq_2)
  have tk: "take k (publish fc bs cs indices) = ?hdr @ take (k - 2) ?body"
    by (simp add: publish_def k')
  have "\<forall>w \<in> set (take (k - 2) ?body). box_index w \<noteq> None"
  proof
    fix w
    assume "w \<in> set (take (k - 2) ?body)"
    then have "w \<in> set ?body" by (rule in_set_takeD)
    then show "box_index w \<noteq> None"
      by (auto dest: box_index_entry_writes)
  qed
  note h = run_writes_header [OF this, of "run_writes d ?hdr"]
  have r: "run_writes d (take k (publish fc bs cs indices))
             = run_writes (run_writes d ?hdr) (take (k - 2) ?body)"
    by (simp only: tk run_writes_append)
  show "frame_number (run_writes d (take k (publish fc bs cs indices))) = fc"
    using h by (simp add: r) (simp add: run_writes_def)
  show "num_detections (run_writes d (take k (publish fc bs cs indices))) = publish_count indices"
    using h by (simp add: r) (simp add: run_writes_def)
  show "processing_complete (run_writes d (take k (publish fc bs cs indices)))
           = processing_complete d"
    using h by (simp add: r) (simp add: run_writes_def)
  show "length (boxes (run_writes d (take k (publish fc bs cs indices)))) = length (boxes d)"
    using h by (simp add: r) (simp add: run_writes_def)
qed

lemma publish_entry:
  assumes "i < nat (publish_count indices)" and "i < length (boxes d)"
  shows "boxes (run_writes d (publish fc bs cs indices)) ! i = published_entry bs cs (indices ! i)"
proof -
  let ?E = "entry_writes bs cs indices"
  let ?n = "nat (publish_count indices)"
  let ?pre = "[Set_frame_number fc, Set_num_detections (publish_count indices)]
                @ concat (map ?E [0..<i])"
  have "[0..<?n] = [0..<i] @ i # [Suc i..<?n]"
    using assms(1) by (metis le_add2 le_add_same_cancel2 upt_add_eq_append upt_conv_Cons less_imp_le_nat le_add_diff_inverse)
  then have split: "publish fc bs cs indices = ?pre @ ?E i @ concat (map ?E [Suc i..<?n])"
    by (simp add: publish_def)
  have pre: "take (2 + 5 * i) (publish fc bs cs indices) = ?pre"
    unfolding split by (simp add: length_body)
  have len: "i < length (boxes (run_writes d ?pre))"
    using publish_prefix_header(4) [of "2 + 5 * i" d fc bs cs indices] assms(2) pre by simp
  have l: "length (?pre @ ?E i) = 2 + 5 * Suc i"
    by (simp add: length_body length_entry_writes)
  from split have "(?pre @ ?E i) @ concat (map ?E [Suc i..<?n]) = publish fc bs cs indices"
    by simp
  then have "?pre @ ?E i = take (length (?pre @ ?E i)) (publish fc bs cs indices)"
    by (simp only: append_eq_conv_conj)
  then have mid: "take (2 + 5 * Suc i) (publish fc bs cs indices) = ?pre @ ?E i"
    by (simp only: l)
  have "boxes (run_writes d (publish fc bs cs indices)) ! i
          = boxes (run_writes d (?pre @ ?E i)) ! i"
    using publish_prefix_done [of i "2 + 5 * Suc i" d fc bs cs indices] mid by simp
  also have "\<dots> = published_entry bs cs (indices ! i)"
    using run_writes_entry [OF len] by (simp only: run_writes_append)
  finally show ?thesis .
qed

lemma publish_target_bound:
  assumes "w \<in> set (publish fc bs cs indices)"
  shows "w \<noteq> Memset_zero \<and> (\<forall>j. box_index w = Some j \<longrightarrow> j < nat (publish_count indices))"
proof -
  from assms obtain p where p: "p < length (publish fc bs cs indices)"
    and w: "w = publish fc bs cs indices ! p"
    by (auto simp: in_set_conv_nth)
  show ?thesis
  proof (cases "2 \<le> p")
    case True
    from p True have "(p - 2) div 5 < nat (publish_count indices)"
      by (simp add: length_publish)
    with publish_nth_box_index [OF True p] publish_nth_not_memset [OF p] w
    show ?thesis by simp
  next
    case False
    then have "p = 0 \<or> p = 1" by auto
    with w show ?thesis by (auto simp: publish_def)
  qed
qed

lemma publish_tail:
  assumes "nat (publish_count indices) \<le> i"
  shows "boxes (run_writes d (publish fc bs cs indices)) ! i = boxes d ! i"
proof -
  from assms have "length (publish fc bs cs indices) \<le> 2 + 5 * i"
    by (simp add: length_publish)
  from publish_prefix_untouched [OF this, of d fc bs cs indices] show ?thesis by simp
qed

lemma publish_header:
  "frame_number (run_writes d (publish fc bs cs indices)) = fc"
  "num_detections (run_writes d (publish fc bs cs indices)) = publish_count indices"
  "processing_complete (run_writes d (publish fc bs cs indices)) = processing_complete d"
  "length (boxes (run_writes d (publish fc bs cs indices))) = length (boxes d)"
  using publish_prefix_header [of "length (publish fc bs cs indices)" d fc bs cs indices]
  by (simp_all add: length_publish)

lemma publish_take_capacity:
  "publish fc bs cs (take 50 indices) = publish fc bs cs indices"
proof -
  have c: "publish_count (take 50 indices) = publish_count indices"
    by (simp add: publish_count_def min_def)
  have "map (entry_writes bs cs (take 50 indices)) [0..<nat (publish_count indices)]
          = map (entry_writes bs cs indices) [0..<nat (publish_count indices)]"
    by (rule map_cong) (auto simp: entry_writes_def publish_count_def)
  with c show ?thesis by (simp only: publish_def)
qed

lemma publish_cong:
  assumes "publish_count i1 = publish_count i2"
    and "\<And>i. i < nat (publish_count i1) \<Longrightarrow>
           published_entry b1 c1 (i1 ! i) = published_entry b2 c2 (i2 ! i)"
  shows "publish fc b1 c1 i1 = publish fc b2 c2 i2"
proof -
  have "map (entry_writes b1 c1 i1) [0..<nat (publish_count i1)]
          = map (entry_writes b2 c2 i2) [0..<nat (publish_count i1)]"
  proof (rule map_cong [OF refl])
    fix i
    assume "i \<in> set [0..<nat (publish_count i1)]"
    then have "published_entry b1 c1 (i1 ! i) = published_entry b2 c2 (i2 ! i)"
      using assms(2) by simp
    then show "entry_writes b1 c1 i1 i = entry_writes b2 c2 i2 i"
      by (simp add: published_entry_def entry_writes_def Let_def)
  qed
  with assms(1) show ?thesis by (simp only: publish_def)
qed

lemma nat_publish_count: "nat (publish_count indices) = min (length indices) 50"
  by (auto simp: publish_count_def min_def)

lemma publish_prefix:
  "map (published_entry bs cs) (take 50 indices)
     = take (nat (publish_count indices)) (boxes (run_writes d (publish fc bs cs indices)))"
  if len: "length (boxes d) = CAPACITY"
proof (rule nth_equalityI)
  show l: "length (map (published_entry bs cs) (take 50 indices))
        = length (take (nat (publish_count indices)) (boxes (run_writes d (publish fc bs cs indices))))"
    using len by (simp add: publish_header nat_publish_count CAPACITY_def)
  fix i
  assume "i < length (map (published_entry bs cs) (take 50 indices))"
  then have i: "i < nat (publish_count indices)" "i < 50" "i < length indices"
    by (simp_all add: nat_publish_count)
  from i(2) len have "i < length (boxes d)" by (simp add: CAPACITY_def)
  from publish_entry [OF i(1) this] i
  show "map (published_entry bs cs) (take 50 indices) ! i
          = take (nat (publish_count indices)) (boxes (run_writes d (publish fc bs cs indices))) ! i"
    by simp
qed

lemma sorted_wrt_take_drop:
  "sorted_wrt P xs \<Longrightarrow> a \<in> set (take n xs) \<Longrightarrow> b \<in> set (drop n xs) \<Longrightarrow> P a b"
  by (metis append_take_drop_id sorted_wrt_append)

lemma publish_store_kinds:
  assumes "w \<in> set (publish fc bs cs indices)"
  shows "w = Set_frame_number fc \<or> w = Set_num_detections (publish_count indices)
           \<or> box_index w \<noteq> None"
  using assms by (auto simp: publish_def dest: box_index_entry_writes)

lemma published_frame_numbers_append:
  "published_frame_numbers (ws @ vs) = published_frame_numbers ws @ published_frame_numbers vs"
  by (induction ws rule: published_frame_numbers.induct) simp_all

lemma published_frame_numbers_entries:
  "\<forall>w \<in> set ws. box_index w \<noteq> None \<Longrightarrow> published_frame_numbers ws = []"
  by (induction ws rule: published_frame_numbers.induct) simp_all

lemma published_frame_numbers_publish:
  "published_frame_numbers (publish fc bs cs indices) = [fc]"
proof -
  have "\<forall>w \<in> set (concat (map (entry_writes bs cs indices) [0..<nat (publish_count indices)])).
          box_index w \<noteq> None"
    by (auto dest: box_index_entry_writes)
  from published_frame_numbers_entries [OF this] show ?thesis
    by (simp add: publish_def)
qed

section \<open>The stores of the streaming loop\<close>

lemma stores_process_frame_no_memset: "Memset_zero \<notin> set (process_frame fc frame outs)"
  using publish_target_bound unfolding process_frame_def Let_def by blast

lemma stream_loop_no_memset: "Memset_zero \<notin> set (fst (stream_loop fs c))"
proof (induction fs arbitrary: c)
  case Nil
  show ?case by simp
next
  case (Cons f fs)
  show ?case
    using Cons.IH [of "c + 1"] stores_process_frame_no_memset
    by (auto split: sum.splits prod.splits)
qed

lemma process_frame_no_flag: "Set_processing_complete b \<notin> set (process_frame fc frame outs)"
  using publish_store_kinds unfolding process_frame_def Let_def by fastforce

lemma stream_loop_no_flag: "Set_processing_complete b \<notin> set (fst (stream_loop fs c))"
proof (induction fs arbitrary: c)
  case Nil
  show ?case by simp
next
  case (Cons f fs)
  show ?case
    using Cons.IH [of "c + 1"] process_frame_no_flag
    by (auto split: sum.splits prod.splits)
qed

lemma published_frame_numbers_process_frame:
  "published_frame_numbers (process_frame fc frame outs) = [fc]"
  by (simp add: process_frame_def Let_def published_frame_numbers_publish)

lemma stream_loop_all_inferred:
  assumes "\<forall>f \<in> set fs. \<not> isl (net_forward f)" and "c + int (length fs) \<le> INT_MAX"
  shows "snd (stream_loop fs c) = (Source_exhausted, c + int (length fs))
     \<and> published_frame_numbers (fst (stream_loop fs c)) = map (\<lambda>i. c + 1 + int i) [0..<length fs]"
  using assms
proof (induction fs arbitrary: c)
  case Nil
  show ?case by simp
next
  case (Cons f fs)
  from Cons.prems obtain outs where outs: "net_forward f = Inr outs"
    by (cases "net_forward f") auto
  from Cons.prems have c: "c \<noteq> INT_MAX" and rest: "\<forall>g \<in> set fs. \<not> isl (net_forward g)"
    and bound: "(c + 1) + int (length fs) \<le> INT_MAX"
    by auto
  note IH = Cons.IH [OF rest bound]
  have m: "map (\<lambda>i. c + 1 + int i) [0..<length (f # fs)]
             = (c + 1) # map (\<lambda>i. c + 1 + 1 + int i) [0..<length fs]"
    by (simp add: upt_conv_Cons map_Suc_upt [symmetric] del: upt_Suc) 
  show ?case
    using IH c outs unfolding m
    by (auto simp: published_frame_numbers_append published_frame_numbers_process_frame
          split: prod.splits)
qed

lemma stream_loop_append:
  assumes "\<forall>f \<in> set pre. \<not> isl (net_forward f)" and "c + int (length pre) \<le> INT_MAX"
  shows "stream_loop (pre @ rest) c =
           (fst (stream_loop pre c) @ fst (stream_loop rest (c + int (length pre))),
            snd (stream_loop rest (c + int (length pre))))"
  using assms
proof (induction pre arbitrary: c)
  case Nil
  show ?case by simp
next
  case (Cons f pre)
  from Cons.prems obtain outs where outs: "net_forward f = Inr outs"
    by (cases "net_forward f") auto
  from Cons.prems have c: "c \<noteq> INT_MAX" and rest: "\<forall>g \<in> set pre. \<not> isl (net_forward g)"
    and bound: "(c + 1) + int (length pre) \<le> INT_MAX"
    by auto
  have shift: "c + 1 + int (length pre) = c + int (length (f # pre))" by simp
  show ?case
    using Cons.IH [OF rest bound] c outs
    by (simp add: shift split: prod.splits)
qed

lemma count_from_one: "map (\<lambda>i. 0 + 1 + int i) [0..<n] = map int [1..<Suc n]"
proof -
  have "map int [1..<Suc n] = map int (map Suc [0..<n])"
    by (simp only: map_Suc_upt One_nat_def)
  then show ?thesis by (simp add: comp_def)
qed

lemma stream_loop_stops_at_exception:
  assumes "isl (net_forward bad)" and "c \<noteq> INT_MAX"
  shows "stream_loop (bad # post) c = ([], Uncaught_exception, c + 1)"
  using assms by (cases "net_forward bad") simp_all

lemma stream_loop_inferred_prefix:
  assumes "int (length fs) \<le> INT_MAX"
  shows "fst (stream_loop fs 0) = fst (stream_loop (takeWhile (\<lambda>f. \<not> isl (net_forward f)) fs) 0)"
proof -
  let ?ok = "\<lambda>f. \<not> isl (net_forward f)"
  let ?pre = "takeWhile ?ok fs" and ?rest = "dropWhile ?ok fs"
  have ok: "\<forall>f \<in> set ?pre. ?ok f"
    by (auto dest: set_takeWhileD)
  have len: "length ?pre + length ?rest = length fs"
    by (metis length_append takeWhile_dropWhile_id)
  with assms have bound: "0 + int (length ?pre) \<le> INT_MAX" by simp
  have "fst (stream_loop ?rest (0 + int (length ?pre))) = []"
  proof (cases ?rest)
    case Nil
    show ?thesis unfolding Nil by simp
  next
    case (Cons bad post)
    then have "isl (net_forward bad)"
      by (metis hd_dropWhile list.sel(1) list.distinct(1))
    moreover from Cons len assms have "0 + int (length ?pre) \<noteq> INT_MAX" by simp
    ultimately show ?thesis
      using stream_loop_stops_at_exception unfolding Cons by simp
  qed
  with stream_loop_append [OF ok bound, of ?rest] show ?thesis
    by simp
qed

section \<open>The program and the segment\<close>

lemma os_run_Nil: "os_run s [] = s"
  by (simp add: os_run_def)

lemma os_run_Cons: "os_run s (ev # evs) = os_run (os_step s ev) evs"
  by (simp add: os_run_def)

lemma os_run_append: "os_run s (evs @ evs') = os_run (os_run s evs) evs'"
  by (simp add: os_run_def)

lemma os_step_keeps_segment:
  "ev \<noteq> Shmctl_rmid \<Longrightarrow> segment s \<noteq> None \<Longrightarrow> segment (os_step s ev) \<noteq> None"
  by (cases ev) auto

lemma os_run_keeps_segment:
  "Shmctl_rmid \<notin> set evs \<Longrightarrow> segment s \<noteq> None \<Longrightarrow> segment (os_run s evs) \<noteq> None"
proof (induction evs arbitrary: s)
  case Nil
  then show ?case by (simp add: os_run_Nil)
next
  case (Cons ev evs)
  from Cons.prems have "ev \<noteq> Shmctl_rmid" and rest: "Shmctl_rmid \<notin> set evs" by auto
  from os_step_keeps_segment [OF this(1) Cons.prems(2)] Cons.IH [OF rest]
  show ?case by (simp add: os_run_Cons)
qed

lemma os_run_stores:
  "mapped s \<Longrightarrow> segment s = Some d \<Longrightarrow>
     os_run s (map Store ws) = s\<lparr>segment := Some (run_writes d ws)\<rparr>"
proof (induction ws arbitrary: s d)
  case Nil
  then show ?case by (simp add: os_run_Nil run_writes_Nil)
next
  case (Cons w ws)
  from Cons.prems have "mapped (os_step s (Store w))"
    and "segment (os_step s (Store w)) = Some (apply_write w d)"
    by simp_all
  from Cons.IH [OF this] Cons.prems show ?case
    by (simp add: os_run_Cons run_writes_Cons)
qed

lemma main_no_rmid: "Shmctl_rmid \<notin> set (fst (main e))"
  by (auto simp: main_def Let_def split: prod.splits loop_exit.splits)

lemma main_Return_0:
  assumes "snd (main e) = Return 0"
  shows "fst (main e) = [Shmget, Shmat] @
           map Store (Memset_zero # Set_processing_complete False # fst (stream_loop (video e) 0)
                        @ [Set_processing_complete True]) @ [Shmdt]"
  using assms by (auto simp: main_def Let_def split: prod.splits loop_exit.splits if_splits)

lemma os_run_attach:
  "\<exists>d. os_run s [Shmget, Shmat] = \<lparr>segment = Some d, mapped = True\<rparr>"
  by (cases s, cases "segment s") (simp_all add: os_run_def)

lemma os_run_completed:
  "os_run s ([Shmget, Shmat] @
      map Store (Memset_zero # Set_processing_complete False # ws @ [Set_processing_complete True])
      @ [Shmdt])
   = \<lparr>segment = Some (run_writes zero_region
                        (Set_processing_complete False # ws @ [Set_processing_complete True])),
      mapped = False\<rparr>"
proof -
  from os_run_attach obtain d where a: "os_run s [Shmget, Shmat] = \<lparr>segment = Some d, mapped = True\<rparr>"
    by blast
  have "os_run \<lparr>segment = Some d, mapped = True\<rparr>
          (map Store (Memset_zero # Set_processing_complete False # ws @ [Set_processing_complete True]))
        = \<lparr>segment = Some (run_writes d
             (Memset_zero # Set_processing_complete False # ws @ [Set_processing_complete True])),
           mapped = True\<rparr>"
    by (subst os_run_stores [where d = d]) simp_all
  then show ?thesis
    by (simp only: os_run_append a) (simp add: os_run_def run_writes_Cons)
qed

lemma main_flag_only_on_return:
  assumes "Store (Set_processing_complete True) \<in> set (fst (main e))"
  shows "snd (main e) = Return 0"
proof -
  have "Set_processing_complete True \<notin> set (fst (stream_loop (video e) 0))"
    by (rule stream_loop_no_flag)
  with assms show ?thesis
    by (auto simp: main_def Let_def split: prod.splits loop_exit.splits if_splits)
qed

lemma main_completes:
  assumes "argc e = 2" "net_loads e" "cap_isOpened e" "shmget_ok e" "shmat_ok e"
    and "\<forall>f \<in> set (video e). \<not> isl (net_forward f)"
    and "int (length (video e)) \<le> INT_MAX"
  shows "main e = ([Shmget, Shmat] @
           map Store (Memset_zero # Set_processing_complete False # fst (stream_loop (video e) 0)
                        @ [Set_processing_complete True]) @ [Shmdt], Return 0)"
proof -
  from assms(7) have "0 + int (length (video e)) \<le> INT_MAX" by simp
  from stream_loop_all_inferred [OF assms(6) this]
  have "fst (snd (stream_loop (video e) 0)) = Source_exhausted" by simp
  with assms(1-5) show ?thesis
    by (auto simp: main_def Let_def split: prod.splits)
qed

section \<open>The suppressor\<close>

lemma intersection_area_commute: "intersection_area a b = intersection_area b a"
  by (simp add: intersection_area_def min.commute max.commute)

lemma iou_commute: "iou a b = iou b a"
  by (simp add: iou_def intersection_area_commute add.commute)

lemma set_suppress: "set (suppress bs thr xs) \<subseteq> set xs"
  by (induction bs thr xs rule: suppress.induct) auto

lemma length_suppress: "length (suppress bs thr xs) \<le> length xs"
proof (induction bs thr xs rule: suppress.induct)
  case (1 bs thr)
  show ?case by simp
next
  case (2 bs thr i rest)
  from order_trans [OF "2.IH" length_filter_le] show ?case by simp
qed

lemma sorted_wrt_suppress:
  "sorted_wrt P xs \<Longrightarrow> sorted_wrt P (suppress bs thr xs)"
proof (induction bs thr xs rule: suppress.induct)
  case (1 bs thr)
  show ?case by simp
next
  case (2 bs thr i rest)
  let ?rest = "filter (\<lambda>j. \<not> thr < iou (bs ! i) (bs ! j)) rest"
  from "2.prems" have "sorted_wrt P ?rest"
    by (simp add: sorted_wrt_filter)
  then have "sorted_wrt P (suppress bs thr ?rest)" by (rule "2.IH")
  moreover have "\<forall>j \<in> set (suppress bs thr ?rest). P i j"
    using "2.prems" set_suppress [of bs thr ?rest] by auto
  ultimately show ?case by simp
qed

lemma distinct_suppress: "distinct xs \<Longrightarrow> distinct (suppress bs thr xs)"
proof (induction bs thr xs rule: suppress.induct)
  case (1 bs thr)
  show ?case by simp
next
  case (2 bs thr i rest)
  let ?rest = "filter (\<lambda>j. \<not> thr < iou (bs ! i) (bs ! j)) rest"
  from "2.prems" have "distinct (suppress bs thr ?rest)"
    by (intro "2.IH") simp
  moreover have "i \<notin> set (suppress bs thr ?rest)"
    using "2.prems" set_suppress [of bs thr ?rest] by auto
  ultimately show ?case by simp
qed

lemma suppress_separates:
  "sorted_wrt (\<lambda>i j. iou (bs ! i) (bs ! j) \<le> thr) (suppress bs thr xs)"
proof (induction bs thr xs rule: suppress.induct)
  case (1 bs thr)
  show ?case by simp
next
  case (2 bs thr i rest)
  let ?rest = "filter (\<lambda>j. \<not> thr < iou (bs ! i) (bs ! j)) rest"
  have "\<forall>j \<in> set (suppress bs thr ?rest). iou (bs ! i) (bs ! j) \<le> thr"
    using set_suppress [of bs thr ?rest] by auto
  with "2.IH" show ?case by simp
qed

lemma suppress_keeps_separated:
  "sorted_wrt (\<lambda>i j. \<not> thr < iou (bs ! i) (bs ! j)) xs \<Longrightarrow> suppress bs thr xs = xs"
  by (induction xs) simp_all

lemma sorted_wrt_sym_pairs:
  assumes "sorted_wrt R xs" and "\<And>a b. R a b \<Longrightarrow> R b a"
    and "a \<in> set xs" and "b \<in> set xs" and "a \<noteq> b"
  shows "R a b"
proof -
  from assms(3,4) obtain p q where p: "p < length xs" "xs ! p = a" and q: "q < length xs" "xs ! q = b"
    by (auto simp: in_set_conv_nth)
  from assms(5) p q have "p < q \<or> q < p" by (cases p q rule: linorder_cases) auto
  then show ?thesis
  proof
    assume "p < q"
    with assms(1) p q show ?thesis by (auto simp: sorted_wrt_iff_nth_less)
  next
    assume "q < p"
    with assms(1) p q have "R b a" by (auto simp: sorted_wrt_iff_nth_less)
    then show ?thesis by (rule assms(2))
  qed
qed

lemma insort_key_order:
  assumes "sorted_wrt (\<lambda>i j. f i \<le> f j \<and> (f i = f j \<longrightarrow> i < j)) ys"
    and "\<forall>y \<in> set ys. (x::nat) < y"
  shows "sorted_wrt (\<lambda>i j. f i \<le> f j \<and> (f i = f j \<longrightarrow> i < j)) (insort_key f x ys)"
  using assms
proof (induction ys)
  case Nil
  show ?case by simp
next
  case (Cons y ys)
  show ?case
  proof (cases "f x \<le> f y")
    case True
    with Cons.prems show ?thesis by (auto intro: order_trans)
  next
    case False
    with Cons.prems Cons.IH show ?thesis
      by (auto simp: set_insort_key) 
  qed
qed

lemma sort_key_order:
  "sorted_wrt (<) (xs :: nat list) \<Longrightarrow>
     sorted_wrt (\<lambda>i j. f i \<le> f j \<and> (f i = f j \<longrightarrow> i < j)) (sort_key f xs)"
proof (induction xs)
  case Nil
  show ?case by simp
next
  case (Cons x xs)
  from Cons.prems have "sorted_wrt (<) xs" and "\<forall>y \<in> set (sort_key f xs). x < y"
    by auto
  with Cons.IH show ?case
    by (simp add: insort_key_order)
qed

lemma NMSBoxes_in_range:
  "idx \<in> set (NMSBoxes bs cs st nt) \<Longrightarrow> idx < length cs"
  using set_suppress [of bs nt "sort_key (\<lambda>i. - (cs ! i)) (filter (\<lambda>i. st < cs ! i) [0..<length cs])"]
  by (auto simp: NMSBoxes_def)

section \<open>The detection filter and the decoding\<close>

lemma powi_less_imp_less: "(2::real) powi m < 2 powi n \<Longrightarrow> m < n"
proof (rule ccontr)
  assume less: "(2::real) powi m < 2 powi n" and "\<not> m < n"
  then have "n \<le> m" by simp
  then have "(2::real) powi n \<le> 2 powi m" by (rule power_int_increasing) simp
  with less show False by simp
qed

lemma find_exponent_eq:
  assumes "- 126 < e" and "e \<le> int n - 126" and "2 powi e \<le> a" and "a < 2 powi (e + 1)"
  shows "find_exponent n a = e"
  using assms
proof (induction n)
  case 0
  then show ?case by simp
next
  case (Suc n)
  show ?case
  proof (cases "2 powi (int (Suc n) - 126) \<le> a")
    case True
    from True Suc.prems(4) have "(2::real) powi (int (Suc n) - 126) < 2 powi (e + 1)"
      by (rule le_less_trans)
    then have "int (Suc n) - 126 < e + 1"
      by (rule powi_less_imp_less)
    with Suc.prems(2) have "int (Suc n) - 126 = e" by linarith
    with True show ?thesis by (simp only: find_exponent.simps if_True)
  next
    case False
    with Suc.prems(3) have "(2::real) powi e < 2 powi (int (Suc n) - 126)" by linarith
    then have "e < int (Suc n) - 126"
      by (rule powi_less_imp_less)
    then have "e \<le> int n - 126" by simp
    from Suc.IH [OF Suc.prems(1) this Suc.prems(3) Suc.prems(4)] False
    show ?thesis by (simp only: find_exponent.simps if_False)
  qed
qed

lemma float_exponent_eq:
  assumes "- 126 < e" and "e \<le> 127" and "2 powi e \<le> \<bar>x\<bar>" and "\<bar>x\<bar> < 2 powi (e + 1)"
  shows "float_exponent x = e"
  unfolding float_exponent_def
proof (rule find_exponent_eq)
  show "- 126 < e" by (rule assms(1))
  show "e \<le> int 253 - 126" using assms(2) by simp
  show "2 powi e \<le> \<bar>x\<bar>" by (rule assms(3))
  show "\<bar>x\<bar> < 2 powi (e + 1)" by (rule assms(4))
qed

lemma find_exponent_small: "a < 2 powi 24 \<Longrightarrow> find_exponent n a \<le> 23"
proof (induction n)
  case 0
  show ?case by simp
next
  case (Suc n)
  show ?case
  proof (cases "2 powi (int (Suc n) - 126) \<le> a")
    case True
    from True Suc.prems have "(2::real) powi (int (Suc n) - 126) < 2 powi 24"
      by (rule le_less_trans)
    then have "int (Suc n) - 126 < 24"
      by (rule powi_less_imp_less)
    with True show ?thesis by (simp only: find_exponent.simps if_True)
  next
    case False
    with Suc.IH [OF Suc.prems] show ?thesis by (simp only: find_exponent.simps if_False)
  qed
qed

lemma round_half_even_of_int: "round_half_even (of_int m) = m"
  by (simp add: round_half_even_def)

lemma f32_of_int:
  assumes "\<bar>k\<bar> < 2 ^ 24"
  shows "f32 (of_int k) = of_int k"
proof -
  let ?e = "float_exponent (of_int k)"
  from assms have "(of_int \<bar>k\<bar> :: real) < of_int (2 ^ 24)"
    by (simp only: of_int_less_iff)
  then have "\<bar>of_int k :: real\<bar> < 2 powi 24"
    by simp
  then have "?e \<le> 23"
    unfolding float_exponent_def by (rule find_exponent_small)
  then have "0 \<le> 23 - ?e" by simp
  then obtain m where "23 - ?e = int m"
    by (rule nonneg_int_cases)
  then have em: "?e - 23 = - int m" by simp
  have p: "(2::real) powi (?e - 23) = inverse (2 ^ m)"
    unfolding em by (simp add: power_int_minus)
  have "of_int k / (2::real) powi (?e - 23) = of_int (k * 2 ^ m)"
    unfolding p by (simp add: field_simps)
  then have "round_half_even (of_int k / 2 powi (?e - 23)) = k * 2 ^ m"
    by (simp only: round_half_even_of_int)
  then show ?thesis
    unfolding f32_def p by simp
qed

lemma float_times_int_exact:
  assumes "\<bar>n\<bar> < 2 ^ 24" and "a * of_int n = of_int k" and "\<bar>k\<bar> < 2 ^ 24"
  shows "float_times_int a n = of_int k"
  using assms by (simp add: float_times_int_def f32_of_int)

lemma to_int_of_int: "to_int (of_int k) = k"
  by (simp add: to_int_def)

lemma to_int_near: "\<bar>of_int (to_int r) - r\<bar> < 1"
  by (simp add: to_int_def) linarith

lemma c_div_2_near: "\<bar>2 * c_div t 2 - t\<bar> \<le> 1"
  by (simp add: c_div_def) presburger

lemma decoded_near:
  "\<bar>of_int (to_int a - c_div (to_int b) 2) - (a - b / 2)\<bar> < (2 :: real)"
proof -
  have "\<bar>of_int (2 * c_div (to_int b) 2 - to_int b) :: real\<bar> \<le> 1"
    using c_div_2_near [of "to_int b"] by (metis of_int_abs of_int_le_1_iff)
  then have "\<bar>2 * of_int (c_div (to_int b) 2) - of_int (to_int b) :: real\<bar> \<le> 1"
    by simp
  with to_int_near [of a] to_int_near [of b] show ?thesis
    by (simp add: abs_if split: if_splits)
qed

lemma process_row_cases:
  assumes "c \<in> set (process_row frame data)"
  shows "process_row frame data = [c] \<and> fst c = 0 \<and> confThreshold < fst (snd c)
     \<and> minMaxLoc (scores data) = (fst (snd c), 0)
     \<and> rect_width (snd (snd c)) = to_int (float_times_int (data2 data) (frame_cols frame))
     \<and> rect_height (snd (snd c)) = to_int (float_times_int (data3 data) (frame_rows frame))
     \<and> rect_x (snd (snd c)) = to_int (float_times_int (data0 data) (frame_cols frame))
          - c_div (to_int (float_times_int (data2 data) (frame_cols frame))) 2
     \<and> rect_y (snd (snd c)) = to_int (float_times_int (data1 data) (frame_rows frame))
          - c_div (to_int (float_times_int (data3 data) (frame_rows frame))) 2"
  using assms
  by (cases "minMaxLoc (scores data)") (auto simp: process_row_def Let_def split: if_splits)

lemma collect_candidates_origin:
  assumes "c \<in> set (collect_candidates frame outs)"
  shows "\<exists>m \<in> set outs. \<exists>data \<in> set m. c \<in> set (process_row frame data)"
  using assms by (auto simp: collect_candidates_def)

lemma published_entry_candidate:
  assumes "idx < length cands"
  shows "published_entry (boxes_of cands) (confidences_of cands) idx
           = published_entry [snd (snd (cands ! idx))] [fst (snd (cands ! idx))] 0"
  using assms by (simp add: published_entry_def boxes_of_def confidences_of_def)

lemma process_frame_entry_origin:
  assumes "length (boxes d) = CAPACITY"
    and "i < nat (num_detections (run_writes d (process_frame fc frame outs)))"
  shows "\<exists>m \<in> set outs. \<exists>data \<in> set m. \<exists>c \<in> set (process_row frame data).
           boxes (run_writes d (process_frame fc frame outs)) ! i
             = published_entry [snd (snd c)] [fst (snd c)] 0"
proof -
  let ?cands = "collect_candidates frame outs"
  let ?indices = "NMSBoxes (boxes_of ?cands) (confidences_of ?cands) confThreshold nmsThreshold"
  have pf: "process_frame fc frame outs
              = publish fc (boxes_of ?cands) (confidences_of ?cands) ?indices"
    by (simp add: process_frame_def Let_def)
  from assms(2) have i: "i < nat (publish_count ?indices)"
    by (simp add: pf publish_header)
  then have ii: "i < length ?indices" and i50: "i < 50"
    by (simp_all add: nat_publish_count)
  from i50 assms(1) have "i < length (boxes d)" by (simp add: CAPACITY_def)
  from publish_entry [OF i this]
  have e: "boxes (run_writes d (process_frame fc frame outs)) ! i
             = published_entry (boxes_of ?cands) (confidences_of ?cands) (?indices ! i)"
    by (simp add: pf)
  from ii have "?indices ! i \<in> set ?indices" by simp
  then have "?indices ! i < length (confidences_of ?cands)" by (rule NMSBoxes_in_range)
  then have r: "?indices ! i < length ?cands" by (simp add: confidences_of_def)
  then have "?cands ! (?indices ! i) \<in> set ?cands" by simp
  from collect_candidates_origin [OF this] e published_entry_candidate [OF r]
  show ?thesis by auto
qed

section \<open>The example inputs\<close>

lemma zero_region_capacity: "length (boxes zero_region) = CAPACITY"
  by (simp add: zero_region_def)

lemma frame1_region_entry: "boxes frame1_region ! 0 = published_entry [example_box 1] [7 / 8] 0"
proof -
  have "boxes (run_writes zero_region (publish 1 [example_box 1] [7 / 8] [0])) ! 0
          = published_entry [example_box 1] [7 / 8] ([0] ! 0)"
    by (rule publish_entry) (simp_all add: publish_count_def zero_region_def CAPACITY_def)
  then show ?thesis by (simp add: frame1_region_def)
qed

lemma empty_frame1_region_eq:
  "empty_frame1_region = zero_region\<lparr>frame_number := 1\<rparr>"
  by (simp add: empty_frame1_region_def publish_def publish_count_def run_writes_def zero_region_def)

lemma disjoint_boxes_nth: "i < n \<Longrightarrow> disjoint_boxes n ! i = example_box i"
  by (simp add: disjoint_boxes_def)

lemma process_row_crowd:
  assumes "i < 1000"
  shows "process_row (crowd_frame n) (crowd_row i) = [(0, 7 / 8, example_box i)]"
proof -
  from assms have small: "\<bar>10 * int i + 2\<bar> < 2 ^ 24" by simp
  have cx: "float_times_int (data0 (crowd_row i)) (frame_cols (crowd_frame n))
              = of_int (10 * int i + 2)"
    by (rule float_times_int_exact [OF _ _ small]) (simp_all add: crowd_row_def crowd_frame_def)
  have cy: "float_times_int (data1 (crowd_row i)) (frame_rows (crowd_frame n)) = of_int 2"
    and w: "float_times_int (data2 (crowd_row i)) (frame_cols (crowd_frame n)) = of_int 5"
    and h: "float_times_int (data3 (crowd_row i)) (frame_rows (crowd_frame n)) = of_int 5"
    by (rule float_times_int_exact; simp add: crowd_row_def crowd_frame_def)+
  have m: "minMaxLoc (scores (crowd_row i)) = (7 / 8, 0)"
    by (simp add: crowd_row_def minMaxLoc_def)
  show ?thesis
    unfolding process_row_def m cx cy w h to_int_of_int
    by (simp add: confThreshold_def c_div_def example_box_def)
qed

lemma collect_candidates_crowd:
  assumes "m \<le> 1000"
  shows "collect_candidates (crowd_frame n) (crowd_outs m)
           = map (\<lambda>i. (0, 7 / 8, example_box i)) [0..<m]"
proof -
  have "map (\<lambda>i. process_row (crowd_frame n) (crowd_row i)) [0..<m]
          = map (\<lambda>i. [(0, 7 / 8, example_box i)]) [0..<m]"
    using assms by (intro map_cong refl process_row_crowd) simp
  from arg_cong [OF this, of concat]
  have "concat (map (\<lambda>i. process_row (crowd_frame n) (crowd_row i)) [0..<m])
          = map (\<lambda>i. (0, 7 / 8, example_box i)) [0..<m]"
    by (simp only: concat_map_singleton)
  then show ?thesis
    by (simp add: collect_candidates_def crowd_outs_def comp_def)
qed

lemma crowd_boxes:
  "m \<le> 1000 \<Longrightarrow> boxes_of (collect_candidates (crowd_frame n) (crowd_outs m)) = disjoint_boxes m"
  by (simp add: collect_candidates_crowd boxes_of_def disjoint_boxes_def comp_def)

lemma crowd_confidences:
  "m \<le> 1000 \<Longrightarrow>
     confidences_of (collect_candidates (crowd_frame n) (crowd_outs m)) = replicate m (7 / 8)"
  by (simp add: collect_candidates_crowd confidences_of_def comp_def map_replicate_const)

lemma iou_example_boxes: "i \<noteq> j \<Longrightarrow> iou (example_box i) (example_box j) = 0"
  by (auto simp: iou_def intersection_area_def rect_area_def example_box_def Let_def min_def max_def)

lemma NMSBoxes_disjoint:
  "NMSBoxes (disjoint_boxes m) (replicate m (7 / 8)) confThreshold nmsThreshold = [0..<m]"
proof -
  let ?cs = "replicate m (7 / 8 :: real)"
  have f: "filter (\<lambda>i. confThreshold < ?cs ! i) [0..<length ?cs] = [0..<m]"
    by (simp add: confThreshold_def cong: filter_cong)
  have "map (\<lambda>i. - (?cs ! i)) [0..<m] = replicate m (- (7 / 8))"
    by (rule nth_equalityI) simp_all
  then have "sorted (map (\<lambda>i. - (?cs ! i)) [0..<m])"
    by (simp add: sorted_replicate)
  then have s: "sort_key (\<lambda>i. - (?cs ! i)) [0..<m] = [0..<m]"
    by (rule sort_key_id_if_sorted)
  have "sorted_wrt (\<lambda>i j. \<not> nmsThreshold < iou (disjoint_boxes m ! i) (disjoint_boxes m ! j)) [0..<m]"
    by (simp add: sorted_wrt_iff_nth_less disjoint_boxes_nth iou_example_boxes nmsThreshold_def)
  then show ?thesis
    by (simp only: NMSBoxes_def f s suppress_keeps_separated)
qed

lemma process_frame_crowd:
  "m \<le> 1000 \<Longrightarrow> process_frame fc (crowd_frame n) (crowd_outs m)
     = publish fc (disjoint_boxes m) (replicate m (7 / 8)) [0..<m]"
  by (simp add: process_frame_def Let_def crowd_boxes crowd_confidences NMSBoxes_disjoint)

lemma example_env_normal:
  "argc (example_env [person_frame]) = 2 \<and> net_loads (example_env [person_frame])
   \<and> cap_isOpened (example_env [person_frame]) \<and> shmget_ok (example_env [person_frame])
   \<and> shmat_ok (example_env [person_frame])
   \<and> (\<forall>f \<in> set (video (example_env [person_frame])). \<not> isl (net_forward f))
   \<and> int (length (video (example_env [person_frame]))) \<le> INT_MAX"
  by (simp add: example_env_def person_frame_def INT_MAX_def)

lemma NMSBoxes_overlapping:
  "NMSBoxes overlapping_boxes [3 / 4, 7 / 8, 5 / 8] confThreshold nmsThreshold = [1, 2]"
  by (simp add: NMSBoxes_def overlapping_boxes_def confThreshold_def nmsThreshold_def
        upt_conv_Cons iou_def intersection_area_def rect_area_def)

lemma example_products:
  "float_times_int (1 / 2) 640 = 320"
  "float_times_int (1 / 2) 480 = 240"
  "float_times_int (1 / 4) 640 = 160"
  "float_times_int (1 / 128) 640 = 5"
  "float_times_int (1 / 32) 480 = 15"
  using float_times_int_exact [of 640 "1 / 2" 320] float_times_int_exact [of 480 "1 / 2" 240]
    float_times_int_exact [of 640 "1 / 4" 160] float_times_int_exact [of 640 "1 / 128" 5]
    float_times_int_exact [of 480 "1 / 32" 15]
  by simp_all

lemma seven_tenths_times_640: "float_times_int (11744051 / 16777216) 640 = 448"
proof -
  have n: "f32 (of_int 640) = of_int 640" by (rule f32_of_int) simp
  have prod: "11744051 / 16777216 * f32 (of_int 640) = 58720255 / 131072"
    unfolding n by simp
  have e: "float_exponent (58720255 / 131072) = 8"
    by (rule float_exponent_eq) simp_all
  have u: "(2::real) powi (8 - 23) = 1 / 32768"
    by (simp add: power_int_def power_divide)
  have "f32 (58720255 / 131072) = 448"
    unfolding f32_def e u by (simp add: round_half_even_def)
  then show ?thesis
    unfolding float_times_int_def prod .
qed

lemma seven_tenths_times_480: "float_times_int (11744051 / 16777216) 480 = 336"
proof -
  have n: "f32 (of_int 480) = of_int 480" by (rule f32_of_int) simp
  have prod: "11744051 / 16777216 * f32 (of_int 480) = 176160765 / 524288"
    unfolding n by simp
  have e: "float_exponent (176160765 / 524288) = 8"
    by (rule float_exponent_eq) simp_all
  have u: "(2::real) powi (8 - 23) = 1 / 32768"
    by (simp add: power_int_def power_divide)
  have "f32 (176160765 / 524288) = 336"
    unfolding f32_def e u by (simp add: round_half_even_def)
  then show ?thesis
    unfolding float_times_int_def prod .
qed

lemma f32_seven_tenths: "f32 (7 / 10) = 11744051 / 16777216"
proof -
  have e: "float_exponent (7 / 10) = - 1"
    by (rule float_exponent_eq) (simp_all add: power_int_def)
  have u: "(2::real) powi (- 1 - 23) = 1 / 16777216"
    by (simp add: power_int_def power_divide)
  show ?thesis
    unfolding f32_def e u by (simp add: round_half_even_def)
qed

lemma narrow_row_candidate:
  "process_row narrow_frame narrow_row
     = [(0, 7 / 8, \<lparr>rect_x = 318, rect_y = 233, rect_width = 5, rect_height = 15\<rparr>)]"
  by (simp add: process_row_def narrow_frame_def narrow_row_def minMaxLoc_def confThreshold_def
        example_products to_int_def c_div_def)

lemma person_row_candidate:
  "process_row person_frame person_row
     = [(0, 7 / 8, \<lparr>rect_x = 240, rect_y = 120, rect_width = 160, rect_height = 240\<rparr>)]"
  by (simp add: process_row_def person_frame_def person_row_def minMaxLoc_def confThreshold_def
        example_products to_int_def c_div_def)

lemma rounded_row_candidate:
  "process_row rounded_frame rounded_row
     = [(0, 7 / 8, \<lparr>rect_x = 368, rect_y = 216, rect_width = 160, rect_height = 240\<rparr>)]"
  by (simp add: process_row_def rounded_frame_def rounded_row_def minMaxLoc_def confThreshold_def
        example_products seven_tenths_times_640 seven_tenths_times_480 to_int_def c_div_def)

lemma single_candidate_stores:
  assumes "process_row frame data = [(0, 7 / 8, r)]"
  shows "process_frame fc frame [[data]]
     = [Set_frame_number fc, Set_num_detections 1, Set_x 0 (of_int (rect_x r)),
        Set_y 0 (of_int (rect_y r)), Set_width 0 (of_int (rect_width r)),
        Set_height 0 (of_int (rect_height r)), Set_confidence 0 (7 / 8)]"
  by (simp add: process_frame_def collect_candidates_def assms confThreshold_def
        NMSBoxes_def boxes_of_def confidences_of_def publish_def publish_count_def
        entry_writes_def Let_def)

lemma narrow_frame_stores:
  "process_frame 1 narrow_frame [[narrow_row]]
     = [Set_frame_number 1, Set_num_detections 1, Set_x 0 318, Set_y 0 233, Set_width 0 5,
        Set_height 0 15, Set_confidence 0 (7 / 8)]"
  using single_candidate_stores [OF narrow_row_candidate, of 1] by simp

lemma person_frame_stores:
  "process_frame 1 person_frame [[person_row]]
     = [Set_frame_number 1, Set_num_detections 1, Set_x 0 240, Set_y 0 120, Set_width 0 160,
        Set_height 0 240, Set_confidence 0 (7 / 8)]"
  using single_candidate_stores [OF person_row_candidate, of 1] by simp

lemma rounded_frame_stores:
  "process_frame 1 rounded_frame [[rounded_row]]
     = [Set_frame_number 1, Set_num_detections 1, Set_x 0 368, Set_y 0 216, Set_width 0 160,
        Set_height 0 240, Set_confidence 0 (7 / 8)]"
  using single_candidate_stores [OF rounded_row_candidate, of 1] by simp

lemma narrow_frame_region:
  "num_detections (run_writes zero_region (process_frame 1 narrow_frame [[narrow_row]])) = 1"
  "boxes (run_writes zero_region (process_frame 1 narrow_frame [[narrow_row]])) ! 0
     = \<lparr>bbox_x = 318, bbox_y = 233, bbox_width = 5, bbox_height = 15, bbox_confidence = 7 / 8\<rparr>"
  by (simp_all add: narrow_frame_stores run_writes_def zero_region_def CAPACITY_def zero_bbox_def)

lemma rounded_frame_region:
  "num_detections (run_writes zero_region (process_frame 1 rounded_frame [[rounded_row]])) = 1"
  "boxes (run_writes zero_region (process_frame 1 rounded_frame [[rounded_row]])) ! 0
     = \<lparr>bbox_x = 368, bbox_y = 216, bbox_width = 160, bbox_height = 240,
        bbox_confidence = 7 / 8\<rparr>"
  by (simp_all add: rounded_frame_stores run_writes_def zero_region_def CAPACITY_def zero_bbox_def)

lemma person_frame_region:
  "num_detections (run_writes zero_region (process_frame 1 person_frame [[person_row]])) = 1"
  "boxes (run_writes zero_region (process_frame 1 person_frame [[person_row]])) ! 0
     = \<lparr>bbox_x = 240, bbox_y = 120, bbox_width = 160, bbox_height = 240,
        bbox_confidence = 7 / 8\<rparr>"
  by (simp_all add: person_frame_stores run_writes_def zero_region_def CAPACITY_def zero_bbox_def)

section \<open>C1: what a reader can find during a publish\<close>

text \<open>
  C1, as amended. The program has no version counter, lock or marker: a publish is the
  plain sequence of stores of lines 133--143, in program order. A reader that looks at
  the region after \<open>k\<close> of these stores finds: the previous record when \<open>k = 0\<close>; the
  new complete record when all the stores are made; for \<open>k\<close> from 1 on the new frame
  number; for \<open>k\<close> from 2 on the new \<^verbatim>\<open>num_detections\<close>; box entry \<open>i\<close> as in the previous
  record as long as \<open>k\<close> is at most \<open>2 + 5 i\<close> (none of its stores is made), and as in
  the new record once \<open>k\<close> is at least \<open>2 + 5 (i + 1)\<close> (its five stores are made);
  \<^verbatim>\<open>processing_complete\<close> as before, for every \<open>k\<close>.
\<close>

theorem publish_observation:
  assumes "k \<le> length (publish fc bs cs indices)"
  shows "(k = 0 \<longrightarrow> observations d (publish fc bs cs indices) ! k = d)
     \<and> (k = length (publish fc bs cs indices) \<longrightarrow>
          observations d (publish fc bs cs indices) ! k = run_writes d (publish fc bs cs indices))
     \<and> (1 \<le> k \<longrightarrow> frame_number (observations d (publish fc bs cs indices) ! k) = fc)
     \<and> (2 \<le> k \<longrightarrow>
          num_detections (observations d (publish fc bs cs indices) ! k) = publish_count indices)
     \<and> processing_complete (observations d (publish fc bs cs indices) ! k) = processing_complete d
     \<and> (\<forall>i. k \<le> 2 + 5 * i \<longrightarrow>
          boxes (observations d (publish fc bs cs indices) ! k) ! i = boxes d ! i)
     \<and> (\<forall>i. 2 + 5 * Suc i \<le> k \<longrightarrow>
          boxes (observations d (publish fc bs cs indices) ! k) ! i
            = boxes (run_writes d (publish fc bs cs indices)) ! i)"
proof -
  let ?ws = "publish fc bs cs indices"
  have ob: "observations d ?ws ! k = run_writes d (take k ?ws)"
    using assms by (rule observations_nth)
  have one: "take (Suc 0) ?ws = [Set_frame_number fc]"
    by (simp add: publish_def)
  have fn: "1 \<le> k \<longrightarrow> frame_number (run_writes d (take k ?ws)) = fc"
  proof
    assume "1 \<le> k"
    then have "k = 1 \<or> 2 \<le> k" by auto
    then show "frame_number (run_writes d (take k ?ws)) = fc"
      using publish_prefix_header(1) [of k d fc bs cs indices]
      by (auto simp: one run_writes_def)
  qed
  have "k = 0 \<or> k = 1 \<or> 2 \<le> k" by auto
  then have pc: "processing_complete (run_writes d (take k ?ws)) = processing_complete d"
    using publish_prefix_header(3) [of k d fc bs cs indices]
    by (auto simp: one run_writes_def)
  show ?thesis
    unfolding ob
    using fn pc publish_prefix_header(2) [of k d fc bs cs indices]
      publish_prefix_untouched [of k _ d fc bs cs indices]
      publish_prefix_done [of _ k d fc bs cs indices]
    by (auto simp: run_writes_Nil)
qed

text \<open>
  The theorem at the publish of frame 2 with one detection over the record of frame 1
  with none: after two stores, and after all seven.
\<close>

theorem publish_observation_witness:
  "2 \<le> length (publish 2 [example_box 1] [7 / 8] [0])
   \<and> frame_number (observations empty_frame1_region (publish 2 [example_box 1] [7 / 8] [0]) ! 2) = 2
   \<and> num_detections (observations empty_frame1_region (publish 2 [example_box 1] [7 / 8] [0]) ! 2) = 1
   \<and> boxes (observations empty_frame1_region (publish 2 [example_box 1] [7 / 8] [0]) ! 2) ! 0
        = boxes empty_frame1_region ! 0
   \<and> 7 \<le> length (publish 2 [example_box 1] [7 / 8] [0])
   \<and> boxes (observations empty_frame1_region (publish 2 [example_box 1] [7 / 8] [0]) ! 7) ! 0
        = boxes (run_writes empty_frame1_region (publish 2 [example_box 1] [7 / 8] [0])) ! 0"
proof -
  have two: "2 \<le> length (publish 2 [example_box 1] [7 / 8] [0])"
    and seven: "7 \<le> length (publish 2 [example_box 1] [7 / 8] [0])"
    by (simp_all add: length_publish publish_count_def)
  note at2 = publish_observation [OF two, of empty_frame1_region]
  note at7 = publish_observation [OF seven, of empty_frame1_region]
  from at2 have "frame_number
      (observations empty_frame1_region (publish 2 [example_box 1] [7 / 8] [0]) ! 2) = 2"
    by simp
  moreover from at2 have "num_detections
      (observations empty_frame1_region (publish 2 [example_box 1] [7 / 8] [0]) ! 2) = 1"
    by (simp add: publish_count_def)
  moreover from at2 have "boxes
      (observations empty_frame1_region (publish 2 [example_box 1] [7 / 8] [0]) ! 2) ! 0
        = boxes empty_frame1_region ! 0"
    by simp
  moreover from at7 have "boxes
      (observations empty_frame1_region (publish 2 [example_box 1] [7 / 8] [0]) ! 7) ! 0
        = boxes (run_writes empty_frame1_region (publish 2 [example_box 1] [7 / 8] [0])) ! 0"
    by simp
  ultimately show ?thesis using two seven by blast
qed

text \<open>
  The claim as stated fails. Frame 1 had no detection, frame 2 has one. After the
  stores of lines 133 and 134 the region differs from the record of frame 1 and from
  that of frame 2: it announces one detection, and the entry for it is still all zero.
\<close>

theorem torn_read_counterexample:
  "observations empty_frame1_region (publish 2 [example_box 1] [7 / 8] [0]) ! 2
      \<noteq> empty_frame1_region
   \<and> observations empty_frame1_region (publish 2 [example_box 1] [7 / 8] [0]) ! 2
      \<noteq> run_writes empty_frame1_region (publish 2 [example_box 1] [7 / 8] [0])
   \<and> num_detections
        (observations empty_frame1_region (publish 2 [example_box 1] [7 / 8] [0]) ! 2) = 1
   \<and> boxes (observations empty_frame1_region (publish 2 [example_box 1] [7 / 8] [0]) ! 2) ! 0
        = zero_bbox"
proof -
  let ?ws = "publish 2 [example_box 1] [7 / 8] [0]"
  have ob: "observations empty_frame1_region ?ws ! 2
              = zero_region\<lparr>frame_number := 2, num_detections := 1\<rparr>"
  proof -
    have "observations empty_frame1_region ?ws ! 2 = run_writes empty_frame1_region (take 2 ?ws)"
      by (rule observations_nth) (simp add: length_publish publish_count_def)
    moreover have "take 2 ?ws = [Set_frame_number 2, Set_num_detections 1]"
      by (simp add: publish_def publish_count_def)
    ultimately show ?thesis
      by (simp add: run_writes_def empty_frame1_region_eq)
  qed
  have new0: "boxes (run_writes empty_frame1_region ?ws) ! 0
                = published_entry [example_box 1] [7 / 8] ([0] ! 0)"
    by (rule publish_entry)
       (simp_all add: publish_count_def empty_frame1_region_eq zero_region_def CAPACITY_def)
  have old0: "boxes (zero_region\<lparr>frame_number := 2, num_detections := 1\<rparr>) ! 0 = zero_bbox"
    by (simp add: zero_region_def CAPACITY_def)
  have "frame_number (observations empty_frame1_region ?ws ! 2)
          \<noteq> frame_number empty_frame1_region"
    unfolding ob by (simp add: empty_frame1_region_eq)
  then have a: "observations empty_frame1_region ?ws ! 2 \<noteq> empty_frame1_region"
    by auto
  have "boxes (observations empty_frame1_region ?ws ! 2) ! 0
          \<noteq> boxes (run_writes empty_frame1_region ?ws) ! 0"
    unfolding new0 ob old0 by (simp add: published_entry_def zero_bbox_def example_box_def)
  then have b: "observations empty_frame1_region ?ws ! 2 \<noteq> run_writes empty_frame1_region ?ws"
    by auto
  have c: "num_detections (observations empty_frame1_region ?ws ! 2) = 1"
    unfolding ob by simp
  have d: "boxes (observations empty_frame1_region ?ws ! 2) ! 0 = zero_bbox"
    unfolding ob by (rule old0)
  from a b c d show ?thesis by blast
qed

section \<open>C2: more candidates than the record holds\<close>

text \<open>
  C2, as amended. \<^verbatim>\<open>DetectionData\<close> has no \<^verbatim>\<open>truncated\<close> member and the program keeps no
  such flag. What a publish of \<open>N\<close> suppressed candidates does: it stores
  \<^verbatim>\<open>num_detections = min(N, 50)\<close> and the first \<open>min(N, 50)\<close> candidates of the suppressor
  output, in its order; when that output is ordered by descending confidence, no dropped
  candidate has a higher confidence than a kept one. It stores the frame number, leaves
  \<^verbatim>\<open>processing_complete\<close> as it was, and makes the very stores it would make for the
  first 50 candidates alone, so nothing in the record tells a truncated frame from one
  that has exactly 50 candidates.
\<close>

theorem publish_truncates_to_capacity:
  assumes "length (boxes d) = CAPACITY"
    and "sorted_wrt (\<lambda>a b. cs ! b \<le> cs ! a) indices"
  shows "num_detections (run_writes d (publish fc bs cs indices)) = min (int (length indices)) 50
     \<and> take (nat (num_detections (run_writes d (publish fc bs cs indices))))
            (boxes (run_writes d (publish fc bs cs indices)))
          = map (published_entry bs cs) (take 50 indices)
     \<and> (\<forall>a \<in> set (take 50 indices). \<forall>b \<in> set (drop 50 indices). cs ! b \<le> cs ! a)
     \<and> frame_number (run_writes d (publish fc bs cs indices)) = fc
     \<and> processing_complete (run_writes d (publish fc bs cs indices)) = processing_complete d
     \<and> publish fc bs cs indices = publish fc bs cs (take 50 indices)"
proof -
  have "\<forall>a \<in> set (take 50 indices). \<forall>b \<in> set (drop 50 indices). cs ! b \<le> cs ! a"
    using sorted_wrt_take_drop [OF assms(2)] by blast
  then show ?thesis
    using publish_prefix [OF assms(1), of bs cs indices fc]
    by (simp add: publish_header publish_take_capacity) (simp add: publish_count_def)
qed

text \<open>
  The theorem at 51 candidates with pairwise disjoint boxes: 50 are counted, and the
  only flag of the record stays false.
\<close>

theorem publish_truncates_to_capacity_witness:
  "length (boxes zero_region) = CAPACITY
   \<and> sorted_wrt (\<lambda>a b. replicate 51 (7 / 8 :: real) ! b \<le> replicate 51 (7 / 8) ! a) [0..<51]
   \<and> num_detections (run_writes zero_region
         (publish 2 (disjoint_boxes 51) (replicate 51 (7 / 8)) [0..<51])) = 50
   \<and> frame_number (run_writes zero_region
         (publish 2 (disjoint_boxes 51) (replicate 51 (7 / 8)) [0..<51])) = 2
   \<and> \<not> processing_complete (run_writes zero_region
         (publish 2 (disjoint_boxes 51) (replicate 51 (7 / 8)) [0..<51]))"
proof -
  have len: "length (boxes zero_region) = CAPACITY"
    by (simp add: zero_region_def)
  have srt: "sorted_wrt (\<lambda>a b. replicate 51 (7 / 8 :: real) ! b \<le> replicate 51 (7 / 8) ! a) [0..<51]"
    by (simp add: sorted_wrt_iff_nth_less)
  note t = publish_truncates_to_capacity [OF len srt, of 2 "disjoint_boxes 51"]
  from t [THEN conjunct1]
  have n: "num_detections (run_writes zero_region
         (publish 2 (disjoint_boxes 51) (replicate 51 (7 / 8)) [0..<51])) = 50"
    by simp
  from t [THEN conjunct2, THEN conjunct2, THEN conjunct2, THEN conjunct1]
  have f: "frame_number (run_writes zero_region
         (publish 2 (disjoint_boxes 51) (replicate 51 (7 / 8)) [0..<51])) = 2" .
  from t [THEN conjunct2, THEN conjunct2, THEN conjunct2, THEN conjunct2, THEN conjunct1]
  have c: "\<not> processing_complete (run_writes zero_region
         (publish 2 (disjoint_boxes 51) (replicate 51 (7 / 8)) [0..<51]))"
    by (simp add: zero_region_def)
  from len srt n f c show ?thesis by blast
qed

text \<open>
  The claim as stated fails. A frame with 51 persons in pairwise disjoint boxes has 51
  suppressed candidates, the frame with the first 50 of them has 50. The program makes
  the same stores for both, and the only boolean member of the record,
  \<^verbatim>\<open>processing_complete\<close>, is false after them. No flag is true for the one frame and
  false for the other.
\<close>

theorem no_truncated_flag_counterexample:
  "length (NMSBoxes (boxes_of (collect_candidates (crowd_frame 51) (crowd_outs 51)))
       (confidences_of (collect_candidates (crowd_frame 51) (crowd_outs 51)))
       confThreshold nmsThreshold) = 51
   \<and> length (NMSBoxes (boxes_of (collect_candidates (crowd_frame 50) (crowd_outs 50)))
       (confidences_of (collect_candidates (crowd_frame 50) (crowd_outs 50)))
       confThreshold nmsThreshold) = 50
   \<and> process_frame 2 (crowd_frame 51) (crowd_outs 51)
       = process_frame 2 (crowd_frame 50) (crowd_outs 50)
   \<and> num_detections (run_writes zero_region (process_frame 2 (crowd_frame 51) (crowd_outs 51)))
       = 50
   \<and> \<not> processing_complete (run_writes zero_region
          (process_frame 2 (crowd_frame 51) (crowd_outs 51)))"
proof -
  have "publish 2 (disjoint_boxes 51) (replicate 51 (7 / 8)) [0..<51]
     = publish 2 (disjoint_boxes 50) (replicate 50 (7 / 8)) [0..<50]"
  proof (rule publish_cong)
    show "publish_count [0..<51] = publish_count [0..<50]"
      by (simp add: publish_count_def)
    fix i
    assume "i < nat (publish_count [0..<51])"
    then have "i < 50" by (simp add: nat_publish_count)
    then show "published_entry (disjoint_boxes 51) (replicate 51 (7 / 8)) ([0..<51] ! i)
        = published_entry (disjoint_boxes 50) (replicate 50 (7 / 8)) ([0..<50] ! i)"
      by (simp add: published_entry_def disjoint_boxes_nth)
  qed
  then have same: "process_frame 2 (crowd_frame 51) (crowd_outs 51)
       = process_frame 2 (crowd_frame 50) (crowd_outs 50)"
    by (simp add: process_frame_crowd)
  have n: "num_detections (run_writes zero_region
      (process_frame 2 (crowd_frame 51) (crowd_outs 51))) = 50"
    by (simp add: process_frame_crowd publish_header publish_count_def)
  have c: "\<not> processing_complete (run_writes zero_region
          (process_frame 2 (crowd_frame 51) (crowd_outs 51)))"
    by (simp add: process_frame_crowd publish_header zero_region_def)
  have l51: "length (NMSBoxes (boxes_of (collect_candidates (crowd_frame 51) (crowd_outs 51)))
       (confidences_of (collect_candidates (crowd_frame 51) (crowd_outs 51)))
       confThreshold nmsThreshold) = 51"
    by (simp add: crowd_boxes crowd_confidences NMSBoxes_disjoint)
  have l50: "length (NMSBoxes (boxes_of (collect_candidates (crowd_frame 50) (crowd_outs 50)))
       (confidences_of (collect_candidates (crowd_frame 50) (crowd_outs 50)))
       confThreshold nmsThreshold) = 50"
    by (simp add: crowd_boxes crowd_confidences NMSBoxes_disjoint)
  from l51 l50 same n c show ?thesis by blast
qed

section \<open>C3: a failure on one frame\<close>

text \<open>
  C3, as amended. The program has no handler for a failure on a frame. When the
  inference of a frame throws after frames whose inference succeeded, the stores made
  are exactly those of the frames before it, the loop ends there with the exception
  uncaught, and no later frame is processed: the frame numbers stored are those of the
  frames before the failing one. The exception leaves \<^verbatim>\<open>main\<close> as well: the program does
  not return 0, it never stores \<^verbatim>\<open>processing_complete = true\<close>, and when it had started
  up, all it did to the segment is the start-up and the stores of the frames before the
  failing one, with no detach.
\<close>

theorem inference_failure_ends_stream:
  assumes "\<forall>f \<in> set pre. \<not> isl (net_forward f)"
    and "isl (net_forward bad)"
    and "int (length pre) < INT_MAX"
    and "video e = pre @ bad # post"
  shows "stream_loop (pre @ bad # post) 0
           = (fst (stream_loop pre 0), Uncaught_exception, int (length pre) + 1)
     \<and> published_frame_numbers (fst (stream_loop (pre @ bad # post) 0))
           = map int [1..<Suc (length pre)]
     \<and> snd (main e) \<noteq> Return 0
     \<and> Store (Set_processing_complete True) \<notin> set (fst (main e))
     \<and> (argc e = 2 \<and> net_loads e \<and> cap_isOpened e \<and> shmget_ok e \<and> shmat_ok e \<longrightarrow>
          main e = ([Shmget, Shmat, Store Memset_zero, Store (Set_processing_complete False)]
                      @ map Store (fst (stream_loop pre 0)), Terminated))"
proof -
  from assms(3) have bound: "0 + int (length pre) \<le> INT_MAX"
    and ne: "0 + int (length pre) \<noteq> INT_MAX" by simp_all
  from stream_loop_append [OF assms(1) bound, of "bad # post"]
    stream_loop_stops_at_exception [OF assms(2) ne, of post]
  have run: "stream_loop (pre @ bad # post) 0
           = (fst (stream_loop pre 0), Uncaught_exception, int (length pre) + 1)"
    by simp
  from stream_loop_all_inferred [OF assms(1) bound]
  have "published_frame_numbers (fst (stream_loop pre 0)) = map int [1..<Suc (length pre)]"
    by (simp only: count_from_one)
  with run have numbers: "published_frame_numbers (fst (stream_loop (pre @ bad # post) 0))
           = map int [1..<Suc (length pre)]"
    by simp
  from run have loop: "stream_loop (video e) 0
           = (fst (stream_loop pre 0), Uncaught_exception, int (length pre) + 1)"
    by (simp only: assms(4))
  have exit: "snd (main e) \<noteq> Return 0"
    by (simp add: main_def loop Let_def)
  have flag: "Store (Set_processing_complete True) \<notin> set (fst (main e))"
    using main_flag_only_on_return [of e] exit by blast
  have started: "main e = ([Shmget, Shmat, Store Memset_zero, Store (Set_processing_complete False)]
                      @ map Store (fst (stream_loop pre 0)), Terminated)"
    if "argc e = 2 \<and> net_loads e \<and> cap_isOpened e \<and> shmget_ok e \<and> shmat_ok e"
    using that by (simp add: main_def loop Let_def)
  from run numbers exit flag started show ?thesis by blast
qed

text \<open>
  The theorem at a video of three frames of which the second fails: only frame 1 is
  published, and the program terminates after the stores of frame 1.
\<close>

theorem inference_failure_ends_stream_witness:
  "\<not> isl (net_forward person_frame)
   \<and> isl (net_forward failing_frame)
   \<and> int (length [person_frame]) < INT_MAX
   \<and> video (example_env [person_frame, failing_frame, person_frame])
        = [person_frame] @ failing_frame # [person_frame]
   \<and> stream_loop ([person_frame] @ failing_frame # [person_frame]) 0
        = (fst (stream_loop [person_frame] 0), Uncaught_exception, 2)
   \<and> published_frame_numbers (fst (stream_loop ([person_frame] @ failing_frame # [person_frame]) 0))
        = [1]
   \<and> main (example_env [person_frame, failing_frame, person_frame])
        = ([Shmget, Shmat, Store Memset_zero, Store (Set_processing_complete False)]
             @ map Store (fst (stream_loop [person_frame] 0)), Terminated)"
proof -
  have ok: "\<forall>f \<in> set [person_frame]. \<not> isl (net_forward f)"
    by (simp add: person_frame_def)
  have bad: "isl (net_forward failing_frame)"
    by (simp add: failing_frame_def)
  have len: "int (length [person_frame]) < INT_MAX"
    by (simp add: INT_MAX_def)
  have v: "video (example_env [person_frame, failing_frame, person_frame])
        = [person_frame] @ failing_frame # [person_frame]"
    by (simp add: example_env_def)
  have up: "argc (example_env [person_frame, failing_frame, person_frame]) = 2
      \<and> net_loads (example_env [person_frame, failing_frame, person_frame])
      \<and> cap_isOpened (example_env [person_frame, failing_frame, person_frame])
      \<and> shmget_ok (example_env [person_frame, failing_frame, person_frame])
      \<and> shmat_ok (example_env [person_frame, failing_frame, person_frame])"
    by (simp add: example_env_def)
  note t = inference_failure_ends_stream [OF ok bad len v]
  from t [THEN conjunct1]
  have run: "stream_loop ([person_frame] @ failing_frame # [person_frame]) 0
        = (fst (stream_loop [person_frame] 0), Uncaught_exception, 2)"
    by (simp del: stream_loop.simps)
  from t [THEN conjunct2, THEN conjunct1]
  have numbers: "published_frame_numbers
      (fst (stream_loop ([person_frame] @ failing_frame # [person_frame]) 0)) = [1]"
    by (simp del: stream_loop.simps)
  from t [THEN conjunct2, THEN conjunct2, THEN conjunct2, THEN conjunct2, THEN mp, OF up]
  have ended: "main (example_env [person_frame, failing_frame, person_frame])
        = ([Shmget, Shmat, Store Memset_zero, Store (Set_processing_complete False)]
             @ map Store (fst (stream_loop [person_frame] 0)), Terminated)" .
  from ok have "\<not> isl (net_forward person_frame)" by simp
  with bad len v run numbers ended show ?thesis by blast
qed

text \<open>
  The claim as stated fails. The first frame of the video fails, the inference of the
  second would succeed: the loop ends at the first frame without a store, and the
  program terminates after the initialisation of the region, without setting the
  completion flag and without detaching.
\<close>

theorem failure_aborts_stream_counterexample:
  "\<not> isl (net_forward person_frame)
   \<and> stream_loop [failing_frame, person_frame] 0 = ([], Uncaught_exception, 1)
   \<and> main (example_env [failing_frame, person_frame])
        = ([Shmget, Shmat, Store Memset_zero, Store (Set_processing_complete False)], Terminated)"
  by (simp add: person_frame_def failing_frame_def INT_MAX_def main_def example_env_def)

section \<open>C4: the frame numbers\<close>

text \<open>
  C4. For a video of at most \<^verbatim>\<open>INT_MAX\<close> frames, the values stored to \<^verbatim>\<open>frame_number\<close>
  are 1, 2, 3, ... in this order, one for each frame up to the first whose inference
  throws: the sequence starts at 1, grows by exactly 1, and has no gap and no repeated
  value. In normal operation, where no inference throws, there is one value per decoded
  frame, 1 up to the number of frames, and the loop ends because the source is exhausted.
\<close>

theorem frame_numbers_count_up:
  assumes "int (length fs) \<le> INT_MAX"
  shows "published_frame_numbers (fst (stream_loop fs 0))
           = map int [1..<Suc (length (takeWhile (\<lambda>f. \<not> isl (net_forward f)) fs))]
     \<and> ((\<forall>f \<in> set fs. \<not> isl (net_forward f)) \<longrightarrow>
          published_frame_numbers (fst (stream_loop fs 0)) = map int [1..<Suc (length fs)]
          \<and> snd (stream_loop fs 0) = (Source_exhausted, int (length fs)))"
proof -
  let ?ok = "\<lambda>f. \<not> isl (net_forward f)"
  have ok: "\<forall>f \<in> set (takeWhile ?ok fs). ?ok f"
    by (auto dest: set_takeWhileD)
  have "length (takeWhile ?ok fs) \<le> length fs"
    by (rule length_takeWhile_le)
  with assms have "0 + int (length (takeWhile ?ok fs)) \<le> INT_MAX" by simp
  from stream_loop_all_inferred [OF ok this] stream_loop_inferred_prefix [OF assms]
  have first: "published_frame_numbers (fst (stream_loop fs 0))
           = map int [1..<Suc (length (takeWhile ?ok fs))]"
    by (simp only: count_from_one)
  have second: "published_frame_numbers (fst (stream_loop fs 0)) = map int [1..<Suc (length fs)]
      \<and> snd (stream_loop fs 0) = (Source_exhausted, int (length fs))"
    if all: "\<forall>f \<in> set fs. ?ok f"
  proof -
    from assms have "0 + int (length fs) \<le> INT_MAX" by simp
    from stream_loop_all_inferred [OF all this] show ?thesis
      by (simp only: count_from_one) simp
  qed
  from first second show ?thesis by blast
qed

text \<open>The theorem at a video of three frames: the numbers stored are 1, 2, 3.\<close>

theorem frame_numbers_count_up_witness:
  "int (length [person_frame, person_frame, person_frame]) \<le> INT_MAX
   \<and> \<not> isl (net_forward person_frame)
   \<and> published_frame_numbers (fst (stream_loop [person_frame, person_frame, person_frame] 0))
        = [1, 2, 3]"
proof -
  have len: "int (length [person_frame, person_frame, person_frame]) \<le> INT_MAX"
    by (simp add: INT_MAX_def)
  have ok: "\<forall>f \<in> set [person_frame, person_frame, person_frame]. \<not> isl (net_forward f)"
    by (simp add: person_frame_def)
  have "map int [1..<Suc (length [person_frame, person_frame, person_frame])] = [1, 2, 3]"
    by (simp add: upt_conv_Cons)
  with frame_numbers_count_up [OF len, THEN conjunct2] ok
  have "published_frame_numbers (fst (stream_loop [person_frame, person_frame, person_frame] 0))
        = [1, 2, 3]"
    by simp
  moreover have "\<not> isl (net_forward person_frame)"
    by (simp add: person_frame_def)
  ultimately show ?thesis using len by blast
qed

section \<open>C5: what is published has passed the filter\<close>

text \<open>
  C5. Every entry of the record that a publish counts (index below \<^verbatim>\<open>num_detections\<close>)
  has a confidence strictly above \<open>confThreshold\<close>, which is 0.5, and comes from a row
  of the network output whose largest class score is that confidence and stands at class
  index 0. A row that fails either test yields no candidate and is never published.
\<close>

theorem published_detections_pass_filter:
  assumes "length (boxes d) = CAPACITY"
    and "i < nat (num_detections (run_writes d (process_frame fc frame outs)))"
  shows "confThreshold < bbox_confidence (boxes (run_writes d (process_frame fc frame outs)) ! i)
     \<and> (\<exists>m \<in> set outs. \<exists>data \<in> set m.
           minMaxLoc (scores data)
             = (bbox_confidence (boxes (run_writes d (process_frame fc frame outs)) ! i), 0))"
proof -
  from process_frame_entry_origin [OF assms]
  obtain m data c where m: "m \<in> set outs" and data: "data \<in> set m"
    and c: "c \<in> set (process_row frame data)"
    and e: "boxes (run_writes d (process_frame fc frame outs)) ! i
              = published_entry [snd (snd c)] [fst (snd c)] 0"
    by blast
  from e have conf: "bbox_confidence (boxes (run_writes d (process_frame fc frame outs)) ! i)
      = fst (snd c)"
    by (simp add: published_entry_def)
  from process_row_cases [OF c] have "confThreshold < fst (snd c)"
    and "minMaxLoc (scores data) = (fst (snd c), 0)"
    by simp_all
  with m data show ?thesis
    unfolding conf by blast
qed

text \<open>The theorem at a frame with one person of confidence 0.875.\<close>

theorem published_detections_pass_filter_witness:
  "length (boxes zero_region) = CAPACITY
   \<and> 0 < nat (num_detections (run_writes zero_region (process_frame 1 person_frame [[person_row]])))
   \<and> confThreshold
        < bbox_confidence (boxes (run_writes zero_region
            (process_frame 1 person_frame [[person_row]])) ! 0)
   \<and> minMaxLoc (scores person_row)
        = (bbox_confidence (boxes (run_writes zero_region
            (process_frame 1 person_frame [[person_row]])) ! 0), 0)
   \<and> bbox_confidence (boxes (run_writes zero_region
        (process_frame 1 person_frame [[person_row]])) ! 0) = 7 / 8"
proof -
  have pos: "0 < nat (num_detections (run_writes zero_region
      (process_frame 1 person_frame [[person_row]])))"
    by (simp add: person_frame_region)
  note t = published_detections_pass_filter [OF zero_region_capacity pos]
  from t [THEN conjunct2] have "minMaxLoc (scores person_row)
        = (bbox_confidence (boxes (run_writes zero_region
            (process_frame 1 person_frame [[person_row]])) ! 0), 0)"
    by simp
  moreover have "bbox_confidence (boxes (run_writes zero_region
        (process_frame 1 person_frame [[person_row]])) ! 0) = 7 / 8"
    by (simp add: person_frame_region)
  ultimately show ?thesis
    using zero_region_capacity pos t [THEN conjunct1] by blast
qed

section \<open>C6: the decoding of a box\<close>

text \<open>
  C6, as amended. The program computes the rectangle in \<^verbatim>\<open>int\<close>. Each of the four products
  \<^verbatim>\<open>data[k] * frame.cols\<close> or \<^verbatim>\<open>data[k] * frame.rows\<close> is a \<^verbatim>\<open>float\<close> product, rounded to
  \<^verbatim>\<open>float\<close>, and is truncated toward zero by the cast; the halving is the integer
  division. Every published entry is the candidate of a row of the network output that
  passed the filter (its largest class score stands at class 0, exceeds the threshold and
  is the published confidence), with: width and height the truncated products of that
  row, left the truncated product for \<open>centerX\<close> minus half the width by integer
  division, top likewise. The published left and top differ by less than 2 pixels from
  the formula of the claim taken over the \<^verbatim>\<open>float\<close> products.
\<close>

theorem published_box_decoding:
  assumes "length (boxes d) = CAPACITY"
    and "i < nat (num_detections (run_writes d (process_frame fc frame outs)))"
  shows "\<exists>m \<in> set outs. \<exists>data \<in> set m.
       minMaxLoc (scores data) = (bbox_confidence (boxes (run_writes d (process_frame fc frame outs)) ! i), 0)
     \<and> confThreshold < bbox_confidence (boxes (run_writes d (process_frame fc frame outs)) ! i)
     \<and> process_row frame data
         = [(0, bbox_confidence (boxes (run_writes d (process_frame fc frame outs)) ! i),
             \<lparr>rect_x = to_int (float_times_int (data0 data) (frame_cols frame))
                        - c_div (to_int (float_times_int (data2 data) (frame_cols frame))) 2,
              rect_y = to_int (float_times_int (data1 data) (frame_rows frame))
                        - c_div (to_int (float_times_int (data3 data) (frame_rows frame))) 2,
              rect_width = to_int (float_times_int (data2 data) (frame_cols frame)),
              rect_height = to_int (float_times_int (data3 data) (frame_rows frame))\<rparr>)]
     \<and> bbox_x (boxes (run_writes d (process_frame fc frame outs)) ! i)
         = of_int (to_int (float_times_int (data0 data) (frame_cols frame))
                    - c_div (to_int (float_times_int (data2 data) (frame_cols frame))) 2)
     \<and> bbox_y (boxes (run_writes d (process_frame fc frame outs)) ! i)
         = of_int (to_int (float_times_int (data1 data) (frame_rows frame))
                    - c_div (to_int (float_times_int (data3 data) (frame_rows frame))) 2)
     \<and> bbox_width (boxes (run_writes d (process_frame fc frame outs)) ! i)
         = of_int (to_int (float_times_int (data2 data) (frame_cols frame)))
     \<and> bbox_height (boxes (run_writes d (process_frame fc frame outs)) ! i)
         = of_int (to_int (float_times_int (data3 data) (frame_rows frame)))
     \<and> \<bar>bbox_x (boxes (run_writes d (process_frame fc frame outs)) ! i)
          - (float_times_int (data0 data) (frame_cols frame)
              - float_times_int (data2 data) (frame_cols frame) / 2)\<bar> < 2
     \<and> \<bar>bbox_y (boxes (run_writes d (process_frame fc frame outs)) ! i)
          - (float_times_int (data1 data) (frame_rows frame)
              - float_times_int (data3 data) (frame_rows frame) / 2)\<bar> < 2"
proof -
  from process_frame_entry_origin [OF assms]
  obtain m data c where m: "m \<in> set outs" and data: "data \<in> set m"
    and c: "c \<in> set (process_row frame data)"
    and e: "boxes (run_writes d (process_frame fc frame outs)) ! i
              = published_entry [snd (snd c)] [fst (snd c)] 0"
    by blast
  note r = process_row_cases [OF c]
  have conf: "bbox_confidence (boxes (run_writes d (process_frame fc frame outs)) ! i) = fst (snd c)"
    by (simp add: e published_entry_def)
  have mm: "minMaxLoc (scores data) = (bbox_confidence (boxes (run_writes d (process_frame fc frame outs)) ! i), 0)"
    and thr: "confThreshold < bbox_confidence (boxes (run_writes d (process_frame fc frame outs)) ! i)"
    using r by (simp_all add: conf)
  have rect: "snd (snd c)
      = \<lparr>rect_x = to_int (float_times_int (data0 data) (frame_cols frame))
                        - c_div (to_int (float_times_int (data2 data) (frame_cols frame))) 2,
         rect_y = to_int (float_times_int (data1 data) (frame_rows frame))
                        - c_div (to_int (float_times_int (data3 data) (frame_rows frame))) 2,
         rect_width = to_int (float_times_int (data2 data) (frame_cols frame)),
         rect_height = to_int (float_times_int (data3 data) (frame_rows frame))\<rparr>"
    using r by simp
  have "c = (0, bbox_confidence (boxes (run_writes d (process_frame fc frame outs)) ! i), snd (snd c))"
    using r by (simp add: conf prod_eq_iff)
  with r have row: "process_row frame data
         = [(0, bbox_confidence (boxes (run_writes d (process_frame fc frame outs)) ! i),
             \<lparr>rect_x = to_int (float_times_int (data0 data) (frame_cols frame))
                        - c_div (to_int (float_times_int (data2 data) (frame_cols frame))) 2,
              rect_y = to_int (float_times_int (data1 data) (frame_rows frame))
                        - c_div (to_int (float_times_int (data3 data) (frame_rows frame))) 2,
              rect_width = to_int (float_times_int (data2 data) (frame_cols frame)),
              rect_height = to_int (float_times_int (data3 data) (frame_rows frame))\<rparr>)]"
    by (simp only: rect [symmetric])
  have x: "bbox_x (boxes (run_writes d (process_frame fc frame outs)) ! i)
         = of_int (to_int (float_times_int (data0 data) (frame_cols frame))
                    - c_div (to_int (float_times_int (data2 data) (frame_cols frame))) 2)"
    using r by (simp add: e published_entry_def)
  have y: "bbox_y (boxes (run_writes d (process_frame fc frame outs)) ! i)
         = of_int (to_int (float_times_int (data1 data) (frame_rows frame))
                    - c_div (to_int (float_times_int (data3 data) (frame_rows frame))) 2)"
    using r by (simp add: e published_entry_def)
  have w: "bbox_width (boxes (run_writes d (process_frame fc frame outs)) ! i)
         = of_int (to_int (float_times_int (data2 data) (frame_cols frame)))"
    using r by (simp add: e published_entry_def)
  have h: "bbox_height (boxes (run_writes d (process_frame fc frame outs)) ! i)
         = of_int (to_int (float_times_int (data3 data) (frame_rows frame)))"
    using r by (simp add: e published_entry_def)
  have nx: "\<bar>bbox_x (boxes (run_writes d (process_frame fc frame outs)) ! i)
          - (float_times_int (data0 data) (frame_cols frame)
              - float_times_int (data2 data) (frame_cols frame) / 2)\<bar> < 2"
    unfolding x by (rule decoded_near)
  have ny: "\<bar>bbox_y (boxes (run_writes d (process_frame fc frame outs)) ! i)
          - (float_times_int (data1 data) (frame_rows frame)
              - float_times_int (data3 data) (frame_rows frame) / 2)\<bar> < 2"
    unfolding y by (rule decoded_near)
  from m data mm thr row x y w h nx ny show ?thesis by blast
qed

text \<open>
  The theorem at a 640 by 480 frame and a row whose centre is the \<^verbatim>\<open>float\<close> nearest to
  0.7: the \<^verbatim>\<open>float\<close> products are 448 and 336, the published left and top are 368 and
  216, where the products taken in the reals would give 447 and 335.
\<close>

theorem published_box_decoding_witness:
  "length (boxes zero_region) = CAPACITY
   \<and> 0 < nat (num_detections (run_writes zero_region (process_frame 1 rounded_frame [[rounded_row]])))
   \<and> bbox_x (boxes (run_writes zero_region (process_frame 1 rounded_frame [[rounded_row]])) ! 0)
        = of_int (to_int (float_times_int (data0 rounded_row) (frame_cols rounded_frame))
                   - c_div (to_int (float_times_int (data2 rounded_row) (frame_cols rounded_frame))) 2)
   \<and> \<bar>bbox_x (boxes (run_writes zero_region (process_frame 1 rounded_frame [[rounded_row]])) ! 0)
        - (float_times_int (data0 rounded_row) (frame_cols rounded_frame)
            - float_times_int (data2 rounded_row) (frame_cols rounded_frame) / 2)\<bar> < 2
   \<and> bbox_x (boxes (run_writes zero_region (process_frame 1 rounded_frame [[rounded_row]])) ! 0) = 368
   \<and> bbox_y (boxes (run_writes zero_region (process_frame 1 rounded_frame [[rounded_row]])) ! 0) = 216
   \<and> float_times_int (data0 rounded_row) (frame_cols rounded_frame) = 448
   \<and> to_int (data0 rounded_row * of_int (frame_cols rounded_frame)) = 447"
proof -
  have pos: "0 < nat (num_detections (run_writes zero_region
      (process_frame 1 rounded_frame [[rounded_row]])))"
    by (simp add: rounded_frame_region)
  note t = published_box_decoding [OF zero_region_capacity pos]
  from t obtain m data where "m \<in> set [[rounded_row]]" and "data \<in> set m"
    and x: "bbox_x (boxes (run_writes zero_region (process_frame 1 rounded_frame [[rounded_row]])) ! 0)
        = of_int (to_int (float_times_int (data0 data) (frame_cols rounded_frame))
                   - c_div (to_int (float_times_int (data2 data) (frame_cols rounded_frame))) 2)"
    and n: "\<bar>bbox_x (boxes (run_writes zero_region (process_frame 1 rounded_frame [[rounded_row]])) ! 0)
        - (float_times_int (data0 data) (frame_cols rounded_frame)
            - float_times_int (data2 data) (frame_cols rounded_frame) / 2)\<bar> < 2"
    by blast
  then have "data = rounded_row" by simp
  with x n have "bbox_x (boxes (run_writes zero_region (process_frame 1 rounded_frame [[rounded_row]])) ! 0)
        = of_int (to_int (float_times_int (data0 rounded_row) (frame_cols rounded_frame))
                   - c_div (to_int (float_times_int (data2 rounded_row) (frame_cols rounded_frame))) 2)"
    and "\<bar>bbox_x (boxes (run_writes zero_region (process_frame 1 rounded_frame [[rounded_row]])) ! 0)
        - (float_times_int (data0 rounded_row) (frame_cols rounded_frame)
            - float_times_int (data2 rounded_row) (frame_cols rounded_frame) / 2)\<bar> < 2"
    by blast+
  moreover have "bbox_x (boxes (run_writes zero_region (process_frame 1 rounded_frame [[rounded_row]])) ! 0) = 368" and "bbox_y (boxes (run_writes zero_region (process_frame 1 rounded_frame [[rounded_row]])) ! 0) = 216"
    by (simp_all add: rounded_frame_region)
  moreover have "float_times_int (data0 rounded_row) (frame_cols rounded_frame) = 448"
    by (simp add: rounded_row_def rounded_frame_def seven_tenths_times_640)
  moreover have "to_int (data0 rounded_row * of_int (frame_cols rounded_frame)) = 447"
    by (simp add: rounded_row_def rounded_frame_def to_int_def)
  ultimately show ?thesis
    using zero_region_capacity pos by blast
qed

text \<open>
  The claim as stated fails. On a 640 by 480 frame the row with centre (1/2, 1/2),
  width 1/128 and height 1/32 gives the rectangle with left 318 and top 233; the real
  valued formula gives 317.5 and 232.5. All the products are exact in \<^verbatim>\<open>float\<close>: the
  difference comes from the truncation and the integer division alone.
\<close>

theorem box_decoding_counterexample:
  "process_row narrow_frame narrow_row
     = [(0, 7 / 8, \<lparr>rect_x = 318, rect_y = 233, rect_width = 5, rect_height = 15\<rparr>)]
   \<and> bbox_x (boxes (run_writes zero_region (process_frame 1 narrow_frame [[narrow_row]])) ! 0)
       = 318
   \<and> data0 narrow_row * of_int (frame_cols narrow_frame)
       - data2 narrow_row * of_int (frame_cols narrow_frame) / 2 = 635 / 2
   \<and> bbox_y (boxes (run_writes zero_region (process_frame 1 narrow_frame [[narrow_row]])) ! 0)
       = 233
   \<and> data1 narrow_row * of_int (frame_rows narrow_frame)
       - data3 narrow_row * of_int (frame_rows narrow_frame) / 2 = 465 / 2
   \<and> float_times_int (data0 narrow_row) (frame_cols narrow_frame)
       = data0 narrow_row * of_int (frame_cols narrow_frame)
   \<and> float_times_int (data2 narrow_row) (frame_cols narrow_frame)
       = data2 narrow_row * of_int (frame_cols narrow_frame)"
proof -
  have "data0 narrow_row * of_int (frame_cols narrow_frame)
       - data2 narrow_row * of_int (frame_cols narrow_frame) / 2 = 635 / 2"
    and "data1 narrow_row * of_int (frame_rows narrow_frame)
       - data3 narrow_row * of_int (frame_rows narrow_frame) / 2 = 465 / 2"
    by (simp_all add: narrow_frame_def narrow_row_def)
  moreover have "float_times_int (data0 narrow_row) (frame_cols narrow_frame)
       = data0 narrow_row * of_int (frame_cols narrow_frame)"
    and "float_times_int (data2 narrow_row) (frame_cols narrow_frame)
       = data2 narrow_row * of_int (frame_cols narrow_frame)"
    by (simp_all add: narrow_frame_def narrow_row_def example_products)
  moreover have "bbox_x (boxes (run_writes zero_region
      (process_frame 1 narrow_frame [[narrow_row]])) ! 0) = 318"
    and "bbox_y (boxes (run_writes zero_region
      (process_frame 1 narrow_frame [[narrow_row]])) ! 0) = 233"
    by (simp_all add: narrow_frame_region)
  ultimately show ?thesis
    using narrow_row_candidate by blast
qed

section \<open>C7: the suppressor\<close>

text \<open>
  C7. The indices that the suppressor returns are distinct positions of candidates of
  its input (those above the score threshold), so they are at most as many as the
  candidates; they are ordered by descending confidence, candidates of equal confidence
  in the order of the input; and any two different survivors have an
  intersection-over-union of at most the threshold. The suppressor is a function of its
  input, so the result is determined by the input and its order.
\<close>

theorem NMSBoxes_contract:
  "distinct (NMSBoxes bs cs st nt)
   \<and> set (NMSBoxes bs cs st nt) \<subseteq> {i. i < length cs \<and> st < cs ! i}
   \<and> length (NMSBoxes bs cs st nt) \<le> length cs
   \<and> sorted_wrt (\<lambda>i j. cs ! j \<le> cs ! i \<and> (cs ! i = cs ! j \<longrightarrow> i < j)) (NMSBoxes bs cs st nt)
   \<and> (\<forall>i \<in> set (NMSBoxes bs cs st nt). \<forall>j \<in> set (NMSBoxes bs cs st nt).
         i \<noteq> j \<longrightarrow> iou (bs ! i) (bs ! j) \<le> nt)"
proof -
  let ?cand = "filter (\<lambda>i. st < cs ! i) [0..<length cs]"
  let ?sorted = "sort_key (\<lambda>i. - (cs ! i)) ?cand"
  have keep: "NMSBoxes bs cs st nt = suppress bs nt ?sorted"
    by (simp add: NMSBoxes_def)
  have asc: "sorted_wrt (<) ?cand"
    by (simp add: sorted_wrt_filter)
  have "distinct ?sorted" by simp
  then have d: "distinct (NMSBoxes bs cs st nt)"
    unfolding keep by (rule distinct_suppress)
  have s: "set (NMSBoxes bs cs st nt) \<subseteq> {i. i < length cs \<and> st < cs ! i}"
    unfolding keep using set_suppress [of bs nt ?sorted] by auto
  have "length (NMSBoxes bs cs st nt) \<le> length ?sorted"
    unfolding keep by (rule length_suppress)
  also have "\<dots> \<le> length cs"
    using length_filter_le [of "\<lambda>i. st < cs ! i" "[0..<length cs]"] by simp
  finally have l: "length (NMSBoxes bs cs st nt) \<le> length cs" .
  from sort_key_order [OF asc, of "\<lambda>i. - (cs ! i)"]
  have "sorted_wrt (\<lambda>i j. cs ! j \<le> cs ! i \<and> (cs ! i = cs ! j \<longrightarrow> i < j)) ?sorted"
    by simp
  then have o: "sorted_wrt (\<lambda>i j. cs ! j \<le> cs ! i \<and> (cs ! i = cs ! j \<longrightarrow> i < j))
      (NMSBoxes bs cs st nt)"
    unfolding keep by (rule sorted_wrt_suppress)
  have sep: "sorted_wrt (\<lambda>i j. iou (bs ! i) (bs ! j) \<le> nt) (NMSBoxes bs cs st nt)"
    unfolding keep by (rule suppress_separates)
  have p: "\<forall>i \<in> set (NMSBoxes bs cs st nt). \<forall>j \<in> set (NMSBoxes bs cs st nt).
         i \<noteq> j \<longrightarrow> iou (bs ! i) (bs ! j) \<le> nt"
  proof (intro ballI impI)
    fix i j
    assume "i \<in> set (NMSBoxes bs cs st nt)" and "j \<in> set (NMSBoxes bs cs st nt)" and "i \<noteq> j"
    then show "iou (bs ! i) (bs ! j) \<le> nt"
      using sorted_wrt_sym_pairs [where R = "\<lambda>i j. iou (bs ! i) (bs ! j) \<le> nt", OF sep]
      by (simp add: iou_commute)
  qed
  from d s l o p show ?thesis by blast
qed

text \<open>
  The theorem at three candidates of which the first two overlap: the second, with the
  higher confidence, suppresses the first, and the third survives.
\<close>

theorem NMSBoxes_contract_witness:
  "NMSBoxes overlapping_boxes [3 / 4, 7 / 8, 5 / 8] confThreshold nmsThreshold = [1, 2]
   \<and> iou (overlapping_boxes ! 1) (overlapping_boxes ! 2) \<le> nmsThreshold
   \<and> iou (overlapping_boxes ! 1) (overlapping_boxes ! 0) = 81 / 119
   \<and> nmsThreshold < iou (overlapping_boxes ! 1) (overlapping_boxes ! 0)"
proof -
  note t = NMSBoxes_contract [of overlapping_boxes "[3 / 4, 7 / 8, 5 / 8]"
      confThreshold nmsThreshold]
  from t [THEN conjunct2, THEN conjunct2, THEN conjunct2, THEN conjunct2]
  have "\<forall>i \<in> set [1, 2 :: nat]. \<forall>j \<in> set [1, 2]. i \<noteq> j \<longrightarrow>
      iou (overlapping_boxes ! i) (overlapping_boxes ! j) \<le> nmsThreshold"
    by (simp only: NMSBoxes_overlapping)
  then have "iou (overlapping_boxes ! 1) (overlapping_boxes ! 2) \<le> nmsThreshold"
    by simp
  moreover have "iou (overlapping_boxes ! 1) (overlapping_boxes ! 0) = 81 / 119"
    by (simp add: overlapping_boxes_def iou_def intersection_area_def rect_area_def)
  moreover have "nmsThreshold < (81 / 119 :: real)"
    by (simp add: nmsThreshold_def)
  ultimately show ?thesis
    using NMSBoxes_overlapping by simp
qed

section \<open>C8: the completion flag is the last store\<close>

text \<open>
  C8. When the program starts up and the source is exhausted (no inference throws, and
  the video has at most \<^verbatim>\<open>INT_MAX\<close> frames), it returns 0 and its operations on the segment
  are: create, attach, clear, the stores of the frames, then
  \<^verbatim>\<open>processing_complete = true\<close>, then detach; the record left in the segment has the
  flag set. In every run, whatever follows a store of \<^verbatim>\<open>processing_complete = true\<close> is
  the detach alone: no store, and so no publish, comes after the flag, and everything
  before it is the start-up and the stores of the loop.
\<close>

theorem completion_flag_is_final_store:
  "(argc e = 2 \<and> net_loads e \<and> cap_isOpened e \<and> shmget_ok e \<and> shmat_ok e
      \<and> (\<forall>f \<in> set (video e). \<not> isl (net_forward f)) \<and> int (length (video e)) \<le> INT_MAX
    \<longrightarrow> main e = ([Shmget, Shmat] @
            map Store (Memset_zero # Set_processing_complete False # fst (stream_loop (video e) 0)
                         @ [Set_processing_complete True]) @ [Shmdt], Return 0)
        \<and> segment (os_run s (fst (main e)))
            = Some (run_writes zero_region (Set_processing_complete False
                      # fst (stream_loop (video e) 0) @ [Set_processing_complete True]))
        \<and> processing_complete (run_writes zero_region (Set_processing_complete False
                      # fst (stream_loop (video e) 0) @ [Set_processing_complete True])))
   \<and> (\<forall>pre post. fst (main e) = pre @ Store (Set_processing_complete True) # post \<longrightarrow>
         post = [Shmdt] \<and> snd (main e) = Return 0
         \<and> pre = [Shmget, Shmat] @ map Store (Memset_zero # Set_processing_complete False
                     # fst (stream_loop (video e) 0)))"
proof (intro conjI impI allI)
  assume n: "argc e = 2 \<and> net_loads e \<and> cap_isOpened e \<and> shmget_ok e \<and> shmat_ok e
      \<and> (\<forall>f \<in> set (video e). \<not> isl (net_forward f)) \<and> int (length (video e)) \<le> INT_MAX"
  then show m: "main e = ([Shmget, Shmat] @
            map Store (Memset_zero # Set_processing_complete False # fst (stream_loop (video e) 0)
                         @ [Set_processing_complete True]) @ [Shmdt], Return 0)"
    by (intro main_completes) simp_all
  show "segment (os_run s (fst (main e)))
            = Some (run_writes zero_region (Set_processing_complete False
                      # fst (stream_loop (video e) 0) @ [Set_processing_complete True]))"
    by (simp only: m fst_conv os_run_completed shm.simps)
  show "processing_complete (run_writes zero_region (Set_processing_complete False
                      # fst (stream_loop (video e) 0) @ [Set_processing_complete True]))"
    using run_writes_snoc [of zero_region
        "Set_processing_complete False # fst (stream_loop (video e) 0)"
        "Set_processing_complete True"]
    by simp
next
  fix pre post
  let ?flag = "Store (Set_processing_complete True)"
  let ?started = "[Shmget, Shmat] @ map Store (Memset_zero # Set_processing_complete False
                     # fst (stream_loop (video e) 0))"
  assume ev: "fst (main e) = pre @ ?flag # post"
  then have "?flag \<in> set (fst (main e))" by simp
  then have r: "snd (main e) = Return 0" by (rule main_flag_only_on_return)
  from main_Return_0 [OF r] ev have eq: "?started @ ?flag # [Shmdt] = pre @ ?flag # post"
    by simp
  have a: "?flag \<notin> set ?started"
    using stream_loop_no_flag [of True "video e" 0] by auto
  have b: "?flag \<notin> set [Shmdt]" by simp
  from append_Cons_eq_iff [OF a b, of pre post] eq
  have "?started = pre \<and> [Shmdt] = post" by blast
  with r show "post = [Shmdt]" and "snd (main e) = Return 0" and "pre = ?started"
    by simp_all
qed

text \<open>The theorem at a video of one frame with one person.\<close>

theorem completion_flag_is_final_store_witness:
  "(argc (example_env [person_frame]) = 2 \<and> net_loads (example_env [person_frame])
     \<and> cap_isOpened (example_env [person_frame]) \<and> shmget_ok (example_env [person_frame])
     \<and> shmat_ok (example_env [person_frame])
     \<and> video (example_env [person_frame]) = [person_frame]
     \<and> \<not> isl (net_forward person_frame)
     \<and> int (length (video (example_env [person_frame]))) \<le> INT_MAX)
   \<and> main (example_env [person_frame])
       = ([Shmget, Shmat, Store Memset_zero, Store (Set_processing_complete False)]
            @ map Store (process_frame 1 person_frame [[person_row]])
            @ [Store (Set_processing_complete True), Shmdt], Return 0)
   \<and> processing_complete (run_writes zero_region (Set_processing_complete False
         # fst (stream_loop (video (example_env [person_frame])) 0)
         @ [Set_processing_complete True]))"
proof -
  note t = completion_flag_is_final_store [of "example_env [person_frame]" absent_segment,
      THEN conjunct1, THEN mp, OF example_env_normal]
  have v: "fst (stream_loop (video (example_env [person_frame])) 0)
             = process_frame 1 person_frame [[person_row]]"
    by (simp add: example_env_def person_frame_def INT_MAX_def)
  from t [THEN conjunct1] have "main (example_env [person_frame])
       = ([Shmget, Shmat, Store Memset_zero, Store (Set_processing_complete False)]
            @ map Store (process_frame 1 person_frame [[person_row]])
            @ [Store (Set_processing_complete True), Shmdt], Return 0)"
    by (simp add: v)
  moreover have "video (example_env [person_frame]) = [person_frame]"
    and "\<not> isl (net_forward person_frame)"
    by (simp_all add: example_env_def person_frame_def)
  ultimately show ?thesis
    using t [THEN conjunct2, THEN conjunct2] example_env_normal by blast
qed

section \<open>C9: the producer detaches and never destroys\<close>

text \<open>
  C9. No run of the program contains the operation that destroys the segment; a segment
  that exists when the program starts exists when it ends, however it ends. When the
  program returns 0, its last operation is the detach, after which the segment is no
  longer mapped by the producer and still holds the final record, with the completion
  flag, for a consumer to read.
\<close>

theorem producer_only_detaches:
  "Shmctl_rmid \<notin> set (fst (main e))
   \<and> (segment s \<noteq> None \<longrightarrow> segment (os_run s (fst (main e))) \<noteq> None)
   \<and> (snd (main e) = Return 0 \<longrightarrow>
        os_run s (fst (main e))
          = \<lparr>segment = Some (run_writes zero_region (Set_processing_complete False
                      # fst (stream_loop (video e) 0) @ [Set_processing_complete True])),
             mapped = False\<rparr>
        \<and> last (fst (main e)) = Shmdt)"
proof (intro conjI impI)
  show "Shmctl_rmid \<notin> set (fst (main e))" by (rule main_no_rmid)
  show "segment (os_run s (fst (main e))) \<noteq> None" if "segment s \<noteq> None"
    using main_no_rmid that by (rule os_run_keeps_segment)
  assume r: "snd (main e) = Return 0"
  show "os_run s (fst (main e))
          = \<lparr>segment = Some (run_writes zero_region (Set_processing_complete False
                      # fst (stream_loop (video e) 0) @ [Set_processing_complete True])),
             mapped = False\<rparr>"
    by (simp only: main_Return_0 [OF r] os_run_completed)
  show "last (fst (main e)) = Shmdt"
    by (simp add: main_Return_0 [OF r])
qed

text \<open>
  The theorem at a segment left by an earlier run, with a video whose first frame
  fails, and at a run to completion that creates the segment.
\<close>

theorem producer_only_detaches_witness:
  "segment stale_segment \<noteq> None
   \<and> segment (os_run stale_segment (fst (main (example_env [failing_frame, person_frame]))))
        = Some zero_region
   \<and> snd (main (example_env [person_frame])) = Return 0
   \<and> os_run absent_segment (fst (main (example_env [person_frame])))
        = \<lparr>segment = Some (run_writes zero_region (Set_processing_complete False
               # process_frame 1 person_frame [[person_row]] @ [Set_processing_complete True])),
           mapped = False\<rparr>"
proof -
  have a: "segment stale_segment \<noteq> None"
    by (simp add: stale_segment_def)
  have b: "snd (main (example_env [person_frame])) = Return 0"
    by (simp add: main_def example_env_def person_frame_def INT_MAX_def)
  have v: "fst (stream_loop (video (example_env [person_frame])) 0)
             = process_frame 1 person_frame [[person_row]]"
    by (simp add: example_env_def person_frame_def INT_MAX_def)
  note t1 = producer_only_detaches [of "example_env [failing_frame, person_frame]" stale_segment]
  note t2 = producer_only_detaches [of "example_env [person_frame]" absent_segment]
  from t1 a have "segment (os_run stale_segment
      (fst (main (example_env [failing_frame, person_frame])))) \<noteq> None"
    by blast
  then have c: "segment (os_run stale_segment
      (fst (main (example_env [failing_frame, person_frame])))) = Some zero_region"
    by (simp add: main_def example_env_def failing_frame_def INT_MAX_def os_run_def
          stale_segment_def) (simp add: zero_region_def)
  from t2 b have "os_run absent_segment (fst (main (example_env [person_frame])))
        = \<lparr>segment = Some (run_writes zero_region (Set_processing_complete False
               # fst (stream_loop (video (example_env [person_frame])) 0)
               @ [Set_processing_complete True])),
           mapped = False\<rparr>"
    by blast
  then have d: "os_run absent_segment (fst (main (example_env [person_frame])))
        = \<lparr>segment = Some (run_writes zero_region (Set_processing_complete False
               # process_frame 1 person_frame [[person_row]] @ [Set_processing_complete True])),
           mapped = False\<rparr>"
    by (simp only: v)
  from a b c d show ?thesis by blast
qed

section \<open>C10: a publish overwrites only the counted entries\<close>

text \<open>
  C10. Every store of a publish that goes to a box entry goes to an entry below
  \<^verbatim>\<open>num_detections\<close>, and none of them clears the region; so the entries from
  \<^verbatim>\<open>num_detections\<close> on hold after the publish what they held before it, which after a
  frame with fewer detections is what an earlier frame left there. The loop never zeroes
  the region again: the only \<^verbatim>\<open>memset\<close> is the one before the first frame.
\<close>

theorem publish_overwrites_only_counted_entries:
  "(\<forall>w \<in> set (publish fc bs cs indices).
       w \<noteq> Memset_zero \<and> (\<forall>j. box_index w = Some j \<longrightarrow> j < nat (publish_count indices)))
   \<and> (\<forall>i. nat (publish_count indices) \<le> i \<longrightarrow>
          boxes (run_writes d (publish fc bs cs indices)) ! i = boxes d ! i)
   \<and> Memset_zero \<notin> set (fst (stream_loop fs c))"
  using publish_target_bound publish_tail stream_loop_no_memset by blast

text \<open>
  The theorem at a frame with one detection followed by a frame with none: the first
  publish stores to entry 0, the second stores to no entry, and entry 0 still holds the
  box of the first frame.
\<close>

theorem publish_overwrites_only_counted_entries_witness:
  "Set_x 0 10 \<in> set (publish 1 [example_box 1] [7 / 8] [0])
   \<and> box_index (Set_x 0 10) = Some 0 \<and> 0 < nat (publish_count [0])
   \<and> nat (publish_count []) \<le> 0
   \<and> boxes (run_writes frame1_region (publish 2 [] [] [])) ! 0
        = \<lparr>bbox_x = 10, bbox_y = 0, bbox_width = 5, bbox_height = 5, bbox_confidence = 7 / 8\<rparr>
   \<and> boxes (run_writes frame1_region (publish 2 [] [] [])) ! 0 \<noteq> zero_bbox"
proof -
  have a: "Set_x 0 10 \<in> set (publish 1 [example_box 1] [7 / 8] [0])"
    by (simp add: publish_def publish_count_def entry_writes_def example_box_def)
  have b: "nat (publish_count []) \<le> 0"
    by (simp add: publish_count_def)
  note first = publish_overwrites_only_counted_entries
    [of 1 "[example_box 1]" "[7 / 8]" "[0]" zero_region "[]" 0]
  note second = publish_overwrites_only_counted_entries
    [of 2 "[]" "[]" "[]" frame1_region "[]" 0]
  from first [THEN conjunct1, THEN bspec, OF a]
  have "0 < nat (publish_count [0])" by simp
  moreover from second [THEN conjunct2, THEN conjunct1] b
  have "boxes (run_writes frame1_region (publish 2 [] [] [])) ! 0 = boxes frame1_region ! 0"
    by blast
  ultimately show ?thesis
    using a b by (simp add: frame1_region_entry published_entry_def example_box_def zero_bbox_def)
qed

end
